theory Spec2Isabelle
  imports Complex_Main "HOL-Library.Word" "HOL-Library.Sublist"
begin

section \<open>Numbers\<close>

text \<open>
  A number of the language is a binary64 floating-point value: a real, one of the two
  infinities, or NaN. The two zeros are identified. The elements of a \<open>Float32Array\<close> are
  numbers that are binary32 values.
\<close>

datatype number = Num real | PosInfinity | NegInfinity | NaN

text \<open>Powers of two with an integer exponent.\<close>

definition pow2 :: "int \<Rightarrow> real" where
  "pow2 q = (if 0 \<le> q then 2 ^ nat q else 1 / 2 ^ nat (- q))"

text \<open>Rounding to the nearest integer, a tie going to the even one.\<close>

definition roundTiesToEven :: "real \<Rightarrow> int" where
  "roundTiesToEven x =
     (let f = \<lfloor>x\<rfloor>; d = x - of_int f
      in if d < 1/2 then f else if 1/2 < d then f + 1 else if even f then f else f + 1)"

text \<open>
  A binary format has a precision of \<open>p\<close> bits and an exponent field of \<open>w\<close> bits, which
  gives the exponents from \<open>emin w\<close> to \<open>emax w\<close>. \<open>floorLog2 w lo x\<close> searches the \<open>2^w\<close>
  exponents from \<open>lo\<close> upwards for the largest \<open>e\<close> with \<open>2^e \<le> x\<close>, and is \<open>lo\<close> when there is
  none: below \<open>2^emin\<close> the numbers of a format are equally spaced.
\<close>

fun floorLog2 :: "nat \<Rightarrow> int \<Rightarrow> real \<Rightarrow> int" where
  "floorLog2 0 lo x = lo"
| "floorLog2 (Suc k) lo x =
     (if pow2 (lo + 2 ^ k) \<le> x then floorLog2 k (lo + 2 ^ k) x else floorLog2 k lo x)"

definition emax :: "nat \<Rightarrow> int" where
  "emax w = 2 ^ (w - 1) - 1"

definition emin :: "nat \<Rightarrow> int" where
  "emin w = 2 - 2 ^ (w - 1)"

text \<open>
  The nearest multiple of the spacing of the format at \<open>x\<close>, ties to even; and the value a
  real result is rounded to, which is an infinity when that multiple is beyond the largest
  number of the format.
\<close>

definition nearest :: "nat \<Rightarrow> nat \<Rightarrow> real \<Rightarrow> real" where
  "nearest p w x =
     (let q = floorLog2 w (emin w) \<bar>x\<bar> - (int p - 1)
      in real_of_int (roundTiesToEven (x / pow2 q)) * pow2 q)"

definition roundTo :: "nat \<Rightarrow> nat \<Rightarrow> real \<Rightarrow> number" where
  "roundTo p w x =
     (let r = nearest p w x
      in if pow2 (emax w + 1) \<le> \<bar>r\<bar> then (if 0 < x then PosInfinity else NegInfinity)
         else Num r)"

definition toFloat64 :: "real \<Rightarrow> number" where
  "toFloat64 = roundTo 53 11"

definition toFloat32 :: "real \<Rightarrow> number" where
  "toFloat32 = roundTo 24 8"


definition isFloat32 :: "real \<Rightarrow> bool" where
  "isFloat32 x \<longleftrightarrow> toFloat32 x = Num x"

text \<open>The operators \<open>*\<close>, \<open>+\<close> and \<open><\<close> of the language on numbers.\<close>

definition isNegative :: "number \<Rightarrow> bool" where
  "isNegative x = (case x of Num a \<Rightarrow> a < 0 | NegInfinity \<Rightarrow> True | _ \<Rightarrow> False)"

fun num_mul :: "number \<Rightarrow> number \<Rightarrow> number" where
  "num_mul (Num a) (Num b) = toFloat64 (a * b)"
| "num_mul x y =
     (if x = NaN \<or> y = NaN \<or> x = Num 0 \<or> y = Num 0 then NaN
      else if isNegative x = isNegative y then PosInfinity else NegInfinity)"

fun num_add :: "number \<Rightarrow> number \<Rightarrow> number" where
  "num_add (Num a) (Num b) = toFloat64 (a + b)"
| "num_add x y =
     (if x = NaN \<or> y = NaN then NaN
      else if (x = PosInfinity \<and> y = NegInfinity) \<or> (x = NegInfinity \<and> y = PosInfinity) then NaN
      else if x = PosInfinity \<or> y = PosInfinity then PosInfinity
      else NegInfinity)"

fun num_less :: "number \<Rightarrow> number \<Rightarrow> bool" where
  "num_less (Num a) (Num b) = (a < b)"
| "num_less x y =
     (x \<noteq> NaN \<and> y \<noteq> NaN \<and> x \<noteq> y \<and> (x = NegInfinity \<or> y = PosInfinity))"

text \<open>\<open>Math.min\<close> and \<open>Math.max\<close> of two numbers: NaN as soon as one of them is.\<close>

definition math_min :: "number \<Rightarrow> number \<Rightarrow> number" where
  "math_min x y = (if x = NaN \<or> y = NaN then NaN else if num_less y x then y else x)"

definition math_max :: "number \<Rightarrow> number \<Rightarrow> number" where
  "math_max x y = (if x = NaN \<or> y = NaN then NaN else if num_less x y then y else x)"

text \<open>Storing a number into an element of a \<open>Float32Array\<close> rounds it to binary32.\<close>

fun float32Element :: "number \<Rightarrow> number" where
  "float32Element (Num x) = toFloat32 x"
| "float32Element v = v"

section \<open>Audio buffers (utils/audioUtils.ts)\<close>

text \<open>
  A Web Audio \<open>AudioBuffer\<close> is a record of its sample rate, its number of channels, its
  length in frames and one sample array (a \<open>Float32Array\<close>) per channel.
  The field \<open>blength\<close> is the property \<open>length\<close> of the source.
\<close>

type_synonym sample = number

record AudioBuffer =
  sampleRate :: nat
  numberOfChannels :: nat
  blength :: nat
  channels :: "sample list list"

record AudioContext =
  ctxSampleRate :: nat

text \<open>
  The platform only hands out buffers with at least one channel and one frame, each channel
  holding exactly \<open>length\<close> samples.
\<close>

definition wf_buffer :: "AudioBuffer \<Rightarrow> bool" where
  "wf_buffer b \<longleftrightarrow>
     0 < numberOfChannels b \<and> 0 < blength b \<and>
     length (channels b) = numberOfChannels b \<and>
     list_all (\<lambda>ch. length ch = blength b) (channels b)"

datatype audio_error =
    IncompatibleBuffers  \<comment> \<open>"All audio buffers must have the same sample rate and number of channels."\<close>
  | IndexSizeError       \<comment> \<open>\<open>getChannelData\<close> with a channel index out of range\<close>
  | RangeError           \<comment> \<open>\<open>TypedArray.set\<close> past the end of the target\<close>

text \<open>\<open>context.createBuffer(numberOfChannels, length, sampleRate)\<close>: a silent buffer.\<close>

definition createBuffer :: "AudioContext \<Rightarrow> nat \<Rightarrow> nat \<Rightarrow> nat \<Rightarrow> AudioBuffer" where
  "createBuffer context n len rate =
     \<lparr>sampleRate = rate, numberOfChannels = n, blength = len,
      channels = replicate n (replicate len (Num 0))\<rparr>"

definition getChannelData :: "AudioBuffer \<Rightarrow> nat \<Rightarrow> audio_error + sample list" where
  "getChannelData b c =
     (if c < numberOfChannels b \<and> c < length (channels b) then Inr (channels b ! c)
      else Inl IndexSizeError)"

text \<open>\<open>target.set(source, offset)\<close> on a Float32Array.\<close>

definition typed_set :: "sample list \<Rightarrow> sample list \<Rightarrow> nat \<Rightarrow> audio_error + sample list" where
  "typed_set target source offset =
     (if length target < offset + length source then Inl RangeError
      else Inr (take offset target @ source @ drop (offset + length source) target))"

subsection \<open>combineAudioBuffers\<close>

text \<open>The first loop: the format check against the first buffer and the total length.\<close>

fun sumLengths :: "nat \<Rightarrow> nat \<Rightarrow> AudioBuffer list \<Rightarrow> nat \<Rightarrow> audio_error + nat" where
  "sumLengths rate nch [] totalLength = Inr totalLength"
| "sumLengths rate nch (buffer # rest) totalLength =
     (if sampleRate buffer \<noteq> rate \<or> numberOfChannels buffer \<noteq> nch then Inl IncompatibleBuffers
      else sumLengths rate nch rest (totalLength + blength buffer))"

text \<open>The inner loop of the copy: one channel, all buffers, the offset moving on.\<close>

fun copyChannel :: "nat \<Rightarrow> AudioBuffer list \<Rightarrow> nat \<Rightarrow> sample list \<Rightarrow> audio_error + sample list" where
  "copyChannel channel [] offset out = Inr out"
| "copyChannel channel (buffer # rest) offset out =
     (case getChannelData buffer channel of
        Inl e \<Rightarrow> Inl e
      | Inr src \<Rightarrow>
         (case typed_set out src offset of
            Inl e \<Rightarrow> Inl e
          | Inr out' \<Rightarrow> copyChannel channel rest (offset + blength buffer) out'))"

text \<open>The outer loop of the copy, over the channels of the combined buffer.\<close>

fun copyChannels :: "AudioBuffer list \<Rightarrow> nat list \<Rightarrow> AudioBuffer \<Rightarrow> audio_error + AudioBuffer" where
  "copyChannels buffers [] combined = Inr combined"
| "copyChannels buffers (channel # rest) combined =
     (case getChannelData combined channel of
        Inl e \<Rightarrow> Inl e
      | Inr out \<Rightarrow>
         (case copyChannel channel buffers 0 out of
            Inl e \<Rightarrow> Inl e
          | Inr out' \<Rightarrow>
              copyChannels buffers rest
                (combined\<lparr>channels := (channels combined)[channel := out']\<rparr>)))"

definition combineAudioBuffers :: "AudioContext \<Rightarrow> AudioBuffer list \<Rightarrow> audio_error + AudioBuffer" where
  "combineAudioBuffers context buffers =
     (case buffers of
        [] \<Rightarrow> Inr (createBuffer context 1 1 (ctxSampleRate context))
      | first # _ \<Rightarrow>
         (case sumLengths (sampleRate first) (numberOfChannels first) buffers 0 of
            Inl e \<Rightarrow> Inl e
          | Inr totalLength \<Rightarrow>
              copyChannels buffers [0..<numberOfChannels first]
                (createBuffer context (numberOfChannels first) totalLength (sampleRate first))))"

subsection \<open>mixAudioBuffers\<close>

text \<open>The loop that collects the channel arrays of both buffers.\<close>

fun gatherChannelData ::
  "AudioBuffer \<Rightarrow> AudioBuffer \<Rightarrow> nat list \<Rightarrow> sample list list \<times> sample list list
     \<Rightarrow> audio_error + sample list list \<times> sample list list" where
  "gatherChannelData speechBuffer musicBuffer [] acc = Inr acc"
| "gatherChannelData speechBuffer musicBuffer (i # rest) (speechData, musicData) =
     (case getChannelData speechBuffer i of
        Inl e \<Rightarrow> Inl e
      | Inr s \<Rightarrow>
         (case getChannelData musicBuffer i of
            Inl e \<Rightarrow> Inl e
          | Inr m \<Rightarrow>
              gatherChannelData speechBuffer musicBuffer rest (speechData @ [s], musicData @ [m])))"

text \<open>
  The body of the inner loop: the value stored at index \<open>i\<close> of the output array. The sum
  is formed in the arithmetic of the language and rounded to binary32 by the store.
\<close>

definition mixedSample ::
  "sample list \<Rightarrow> sample list \<Rightarrow> nat \<Rightarrow> number \<Rightarrow> number \<Rightarrow> nat \<Rightarrow> sample" where
  "mixedSample speechChannelData musicChannelData musicLength speechVolume musicVolume i =
     (let s0 = Num 0;
          s1 = (if i < length speechChannelData
                then num_add s0 (num_mul (speechChannelData ! i) speechVolume) else s0);
          s2 = (if 0 < musicLength
                then num_add s1
                       (num_mul (musicChannelData ! (i mod length musicChannelData)) musicVolume)
                else s1)
      in float32Element (math_max (Num (- 1)) (math_min (Num 1) s2)))"

fun mixChannel ::
  "sample list \<Rightarrow> sample list \<Rightarrow> nat \<Rightarrow> number \<Rightarrow> number \<Rightarrow> nat list \<Rightarrow> sample list
     \<Rightarrow> sample list" where
  "mixChannel sp mu musicLength sv mv [] outputData = outputData"
| "mixChannel sp mu musicLength sv mv (i # rest) outputData =
     mixChannel sp mu musicLength sv mv rest
       (outputData[i := mixedSample sp mu musicLength sv mv i])"

fun mixChannels ::
  "sample list list \<Rightarrow> sample list list \<Rightarrow> nat \<Rightarrow> number \<Rightarrow> number \<Rightarrow> nat \<Rightarrow> nat list
     \<Rightarrow> AudioBuffer \<Rightarrow> audio_error + AudioBuffer" where
  "mixChannels speechData musicData musicLength sv mv longerLength [] mixedBuffer = Inr mixedBuffer"
| "mixChannels speechData musicData musicLength sv mv longerLength (channel # rest) mixedBuffer =
     (case getChannelData mixedBuffer channel of
        Inl e \<Rightarrow> Inl e
      | Inr outputData \<Rightarrow>
          mixChannels speechData musicData musicLength sv mv longerLength rest
            (mixedBuffer\<lparr>channels := (channels mixedBuffer)
               [channel := mixChannel (speechData ! channel) (musicData ! channel) musicLength
                             sv mv [0..<longerLength] outputData]\<rparr>))"

definition mixAudioBuffers ::
  "AudioContext \<Rightarrow> AudioBuffer \<Rightarrow> AudioBuffer \<Rightarrow> number \<Rightarrow> number \<Rightarrow> audio_error + AudioBuffer" where
  "mixAudioBuffers context speechBuffer musicBuffer speechVolume musicVolume =
     (let rate = sampleRate speechBuffer;
          nch = numberOfChannels speechBuffer;
          longerLength = max (blength speechBuffer) (blength musicBuffer);
          mixedBuffer = createBuffer context nch longerLength rate
      in case gatherChannelData speechBuffer musicBuffer [0..<nch] ([], []) of
           Inl e \<Rightarrow> Inl e
         | Inr (speechData, musicData) \<Rightarrow>
             mixChannels speechData musicData (blength musicBuffer) speechVolume musicVolume
               longerLength [0..<nch] mixedBuffer)"

subsection \<open>Sample re-encoding of the exporters\<close>

text \<open>
  Storing a number into an \<open>Int16Array\<close> or through \<open>DataView.setInt16\<close> applies ToInt16:
  truncation towards zero, then reduction modulo \<open>2^16\<close> into the signed range; NaN and the
  infinities give 0.
\<close>

definition js_trunc :: "real \<Rightarrow> int" where
  "js_trunc x = (if x < 0 then \<lceil>x\<rceil> else \<lfloor>x\<rfloor>)"

fun toInt16 :: "number \<Rightarrow> int" where
  "toInt16 (Num x) = sint (word_of_int (js_trunc x) :: 16 word)"
| "toInt16 v = 0"

text \<open>The body of the loop of \<open>floatTo16BitPCM\<close> in \<open>exportWAV\<close>.\<close>

definition wavSample :: "sample \<Rightarrow> int" where
  "wavSample x =
     (let s = math_max (Num (- 1)) (math_min (Num 1) x)
      in toInt16 (if num_less s (Num 0) then num_mul s (Num 32768) else num_mul s (Num 32767)))"

definition floatTo16BitPCM :: "sample list \<Rightarrow> int list" where
  "floatTo16BitPCM input = map wavSample input"

text \<open>The sample data of \<open>exportWAV\<close>: channel after channel, after the 44 header bytes.\<close>

definition exportWAV_samples :: "AudioBuffer \<Rightarrow> int list" where
  "exportWAV_samples audioBuffer = concat (map floatTo16BitPCM (channels audioBuffer))"

text \<open>The conversion loop of \<open>exportMP3\<close>, over channel 0.\<close>

definition mp3Sample :: "sample \<Rightarrow> int" where
  "mp3Sample x = toInt16 (num_mul (math_max (Num (- 1)) (math_min (Num 1) x)) (Num 32767))"

definition exportMP3_samples :: "AudioBuffer \<Rightarrow> audio_error + int list" where
  "exportMP3_samples audioBuffer =
     (case getChannelData audioBuffer 0 of
        Inl e \<Rightarrow> Inl e
      | Inr channelData \<Rightarrow> Inr (map mp3Sample channelData))"

section \<open>Retrying remote calls (services/geminiService.ts)\<close>

text \<open>\<open>haystack.includes(needle)\<close> on strings (\<open>includes\<close> is a keyword of the prover).\<close>

fun str_includes :: "string \<Rightarrow> string \<Rightarrow> bool" where
  "str_includes [] needle = (needle = [])"
| "str_includes (c # cs) needle = (prefix needle (c # cs) \<or> str_includes cs needle)"

text \<open>
  What \<open>parseGeminiError\<close> extracts from a thrown value: the message, and for a
  structured API error its code, its status and the delay of its \<open>RetryInfo\<close> detail.
  The extraction from the JSON payload is not modelled: a thrown value is represented by
  these four fields, as they stand before the last step of the source function. The
  message is undefined when the payload has an \<open>error\<close> object without a \<open>message\<close>.

  The last step replaces the message of an internal server error. It calls \<open>includes\<close> on
  the message, which raises a TypeError when the message is undefined: \<open>parseGeminiError\<close>
  then returns nothing.
\<close>

record 'm error_fields =
  errorMessage :: 'm
  errorCode :: "int option"
  statusMessage :: "string option"
  retryDelayMs :: "number option"

type_synonym thrown_error = "string option error_fields"

type_synonym gemini_error = "string error_fields"

definition parseGeminiError :: "thrown_error \<Rightarrow> gemini_error option" where
  "parseGeminiError error =
     (case errorMessage error of
        None \<Rightarrow> None
      | Some m \<Rightarrow>
          Some \<lparr>errorMessage =
                  (if str_includes m ''Internal error encountered''
                   then ''Ocorreu um erro interno nos servidores do Gemini. Por favor, tente novamente mais tarde.''
                   else m),
                errorCode = errorCode error, statusMessage = statusMessage error,
                retryDelayMs = retryDelayMs error\<rparr>)"

record RetryOptions =
  maxRetries :: nat
  initialDelayMs :: number

text \<open>
  The errors \<open>callGeminiApiWithRetries\<close> throws, one constructor per \<open>throw\<close> of the
  source, with the parts its message is built from.
\<close>

datatype thrown =
    MissingApiKey
  | ParseTypeError                 \<comment> \<open>the TypeError of \<open>parseGeminiError\<close>, which leaves the \<open>catch\<close> block\<close>
  | Rethrown thrown_error          \<comment> \<open>\<open>throw error\<close>: the original error, for the caller's cooldown\<close>
  | QuotaMessage string            \<comment> \<open>retries exhausted, quota: the message already has the rate-limits URL\<close>
  | QuotaExhausted string string   \<comment> \<open>retries exhausted, quota: service name, original message\<close>
  | Overloaded string              \<comment> \<open>retries exhausted, model overloaded or unavailable: service name\<close>
  | EmptyResponse string string    \<comment> \<open>retries exhausted, empty response: service name, original message\<close>
  | PersistentFailure string string
  | AuthenticationError            \<comment> \<open>403 Forbidden\<close>
  | EntityNotFound string
  | ImagenBilling string
  | Failure string string          \<comment> \<open>"Falha durante \<open>serviceName\<close>: \<open>errorMessage\<close>"\<close>

definition isQuotaError :: "gemini_error \<Rightarrow> bool" where
  "isQuotaError p \<longleftrightarrow>
     errorCode p = Some 429 \<or> statusMessage p = Some ''RESOURCE_EXHAUSTED''
     \<or> str_includes (errorMessage p) ''You exceeded your current quota''"

definition isModelOverloadedError :: "gemini_error \<Rightarrow> bool" where
  "isModelOverloadedError p \<longleftrightarrow>
     errorCode p = Some 503 \<or> statusMessage p = Some ''UNAVAILABLE''
     \<or> str_includes (errorMessage p) ''The model is overloaded''
     \<or> str_includes (errorMessage p) ''Ocorreu um erro interno nos servidores do Gemini.''"

definition isEmptyResponseError :: "gemini_error \<Rightarrow> bool" where
  "isEmptyResponseError p \<longleftrightarrow>
     str_includes (errorMessage p) ''empty audio response''
     \<or> str_includes (errorMessage p) ''empty response from the Gemini API''"

definition isNotFoundKeyError :: "gemini_error \<Rightarrow> bool" where
  "isNotFoundKeyError p \<longleftrightarrow> str_includes (errorMessage p) ''Requested entity was not found.''"

text \<open>The error thrown once the retries are used up (the \<open>else\<close> branch of \<open>retriesLeft > 0\<close>).\<close>

definition exhausted :: "string \<Rightarrow> gemini_error \<Rightarrow> thrown" where
  "exhausted serviceName p =
     (if isQuotaError p then
        (if str_includes (errorMessage p) ''https://ai.google.dev/gemini-api/docs/rate-limits''
         then QuotaMessage (errorMessage p)
         else QuotaExhausted serviceName (errorMessage p))
      else if isModelOverloadedError p then Overloaded serviceName
      else if isEmptyResponseError p then EmptyResponse serviceName (errorMessage p)
      else PersistentFailure serviceName (errorMessage p))"

text \<open>The errors that are not retried (the end of the \<open>catch\<close> block).\<close>

definition notRetried :: "string \<Rightarrow> gemini_error \<Rightarrow> thrown" where
  "notRetried serviceName p =
     (if str_includes (errorMessage p) ''403 Forbidden'' then AuthenticationError
      else if isNotFoundKeyError p then EntityNotFound (errorMessage p)
      else if serviceName = ''image generation''
              \<and> str_includes (errorMessage p)
                    ''Imagen API is only accessible to billed users at this time.''
           then ImagenBilling (errorMessage p)
      else Failure serviceName (errorMessage p))"

text \<open>
  The outcome of a call: what it returns or throws, how many times the operation was
  invoked, and the delays it waited out, in order. Each wait is preceded by the call of
  \<open>onRetryWait\<close>, when that callback is given.
\<close>

record 'a call_outcome =
  result :: "thrown + 'a"
  invocations :: nat
  waited :: "number list"

text \<open>
  The \<open>while (true)\<close> loop. \<open>apiCall k\<close> is what the \<open>k\<close>-th invocation of the operation
  does: it returns a value or throws. The loop variables are \<open>retriesLeft\<close> and \<open>delay\<close>;
  \<open>k\<close> counts the invocations made and \<open>ws\<close> collects the waits.
\<close>

fun retryLoop ::
  "(nat \<Rightarrow> thrown_error + 'a) \<Rightarrow> string \<Rightarrow> nat \<Rightarrow> number \<Rightarrow> nat \<Rightarrow> number list
     \<Rightarrow> 'a call_outcome" where
  "retryLoop apiCall serviceName retriesLeft delay k ws =
     (case apiCall k of
        Inr v \<Rightarrow> \<lparr>result = Inr v, invocations = Suc k, waited = ws\<rparr>
      | Inl error \<Rightarrow>
         (case parseGeminiError error of
            None \<Rightarrow> \<lparr>result = Inl ParseTypeError, invocations = Suc k, waited = ws\<rparr>
          | Some p \<Rightarrow>
             if isQuotaError p \<and> retryDelayMs p \<noteq> None then
               \<lparr>result = Inl (Rethrown error), invocations = Suc k, waited = ws\<rparr>
             else if isModelOverloadedError p \<or> (isQuotaError p \<and> retryDelayMs p = None)
                     \<or> isEmptyResponseError p then
               (if 0 < retriesLeft then
                  (let currentDelay = (case retryDelayMs p of Some d \<Rightarrow> d | None \<Rightarrow> delay)
                   in retryLoop apiCall serviceName (retriesLeft - 1)
                        (if retryDelayMs p = None then num_mul delay (Num 2) else delay)
                        (Suc k) (ws @ [currentDelay]))
                else \<lparr>result = Inl (exhausted serviceName p), invocations = Suc k, waited = ws\<rparr>)
             else \<lparr>result = Inl (notRetried serviceName p), invocations = Suc k, waited = ws\<rparr>))"

definition callGeminiApiWithRetries ::
  "string option \<Rightarrow> (nat \<Rightarrow> thrown_error + 'a) \<Rightarrow> string \<Rightarrow> RetryOptions \<Rightarrow> 'a call_outcome" where
  "callGeminiApiWithRetries apiKey apiCall serviceName retryOptions =
     (if apiKey = None \<or> apiKey = Some [] then
        \<lparr>result = Inl MissingApiKey, invocations = 0, waited = []\<rparr>
      else retryLoop apiCall serviceName (maxRetries retryOptions)
             (initialDelayMs retryOptions) 0 [])"


text \<open>
  The backoff schedule in the words of the specification: the delay starts at the initial
  delay and doubles with each retry, except that a delay supplied by the server is used as
  it is, without doubling.
\<close>

fun backoff_delays :: "number \<Rightarrow> number option list \<Rightarrow> number list" where
  "backoff_delays d [] = []"
| "backoff_delays d (None # rest) = d # backoff_delays (num_mul d (Num 2)) rest"
| "backoff_delays d (Some s # rest) = s # backoff_delays d rest"

fun delay_after :: "number \<Rightarrow> number option list \<Rightarrow> number" where
  "delay_after d [] = d"
| "delay_after d (None # rest) = delay_after (num_mul d (Num 2)) rest"
| "delay_after d (Some s # rest) = delay_after d rest"
















section \<open>Text segmentation (components/AudioGenerator.tsx, handleGenerateAudio)\<close>

text \<open>
  A JavaScript string is a sequence of UTF-16 code units, and \<open>length\<close> counts them. Code
  units are modelled as natural numbers.
\<close>

type_synonym jsstring = "nat list"

text \<open>The character classes of the two regular expressions, and of \<open>trim\<close>.\<close>

definition isWhiteSpace :: "nat \<Rightarrow> bool" where
  \<comment> \<open>\<open>\s\<close>, and what \<open>trim\<close> strips: white space and line terminators\<close>
  "isWhiteSpace c \<longleftrightarrow>
     c \<in> {9, 10, 11, 12, 13, 32, 160, 5760, 8232, 8233, 8239, 8287, 12288, 65279}
     \<or> (8192 \<le> c \<and> c \<le> 8202)"

definition isLineTerminator :: "nat \<Rightarrow> bool" where
  \<comment> \<open>what \<open>.\<close> does not match\<close>
  "isLineTerminator c \<longleftrightarrow> c \<in> {10, 13, 8232, 8233}"

definition isUpperAZ :: "nat \<Rightarrow> bool" where
  "isUpperAZ c \<longleftrightarrow> 65 \<le> c \<and> c \<le> 90"

definition isLowerAZ :: "nat \<Rightarrow> bool" where
  "isLowerAZ c \<longleftrightarrow> 97 \<le> c \<and> c \<le> 122"

definition isWordChar :: "nat \<Rightarrow> bool" where
  \<comment> \<open>\<open>\w\<close>\<close>
  "isWordChar c \<longleftrightarrow> isUpperAZ c \<or> isLowerAZ c \<or> (48 \<le> c \<and> c \<le> 57) \<or> c = 95"

definition isSentenceEnd :: "nat \<Rightarrow> bool" where
  \<comment> \<open>\<open>[.!?]\<close>\<close>
  "isSentenceEnd c \<longleftrightarrow> c \<in> {46, 33, 63}"

definition isCapital :: "nat \<Rightarrow> bool" where
  \<comment> \<open>the class of the lookahead: A-Z and the accented capitals it lists\<close>
  "isCapital c \<longleftrightarrow>
     isUpperAZ c \<or>
     c \<in> {193, 201, 205, 211, 218, 192, 200, 204, 210, 217, 195, 213, 194, 202, 206, 212,
          219, 220, 199}"

definition trim :: "jsstring \<Rightarrow> jsstring" where
  "trim s = rev (dropWhile isWhiteSpace (rev (dropWhile isWhiteSpace s)))"

text \<open>
  A matcher gives, for a string and a position, the length of the match of a regular
  expression that starts at that position, if there is one.

  \<open>/\n\s*\n/\<close> at \<open>q\<close>: a line feed, then white space, then a line feed. \<open>\s*\<close> is greedy and
  gives back characters until a line feed follows, so the match ends with the last line
  feed of the white space that follows position \<open>q\<close>.
\<close>

definition lastLineFeed :: "jsstring \<Rightarrow> nat option" where
  \<comment> \<open>the number of characters up to and including the last line feed\<close>
  "lastLineFeed run =
     (let rest = dropWhile (\<lambda>c. c \<noteq> 10) (rev run)
      in if rest = [] then None else Some (length rest))"

definition paragraphMatch :: "jsstring \<Rightarrow> nat \<Rightarrow> nat option" where
  "paragraphMatch S q =
     (if q < length S \<and> S ! q = 10 then
        (case lastLineFeed (takeWhile isWhiteSpace (drop (Suc q) S)) of
           None \<Rightarrow> None
         | Some n \<Rightarrow> Some (Suc n))
      else None)"

text \<open>
  The sentence boundary
  \<open>/(?<!\w\.\w.)(?<![A-Z][a-z]\.)(?<=[.!?])\s+(?=[A-Z...])/\<close> at \<open>q\<close>: the three lookbehinds
  read the characters before \<open>q\<close>; \<open>\s+\<close> takes the whole run of white space at \<open>q\<close> (a
  shorter one would be followed by white space, which is no capital), and a capital must
  follow it.
\<close>

definition sentenceMatch :: "jsstring \<Rightarrow> nat \<Rightarrow> nat option" where
  "sentenceMatch S q =
     (let run = takeWhile isWhiteSpace (drop q S);
          e = q + length run
      in if \<not> (4 \<le> q \<and> isWordChar (S ! (q - 4)) \<and> S ! (q - 3) = 46
                \<and> isWordChar (S ! (q - 2)) \<and> \<not> isLineTerminator (S ! (q - 1)))
          \<and> \<not> (3 \<le> q \<and> isUpperAZ (S ! (q - 3)) \<and> isLowerAZ (S ! (q - 2)) \<and> S ! (q - 1) = 46)
          \<and> 1 \<le> q \<and> q \<le> length S \<and> isSentenceEnd (S ! (q - 1))
          \<and> run \<noteq> [] \<and> e < length S \<and> isCapital (S ! e)
         then Some (length run) else None)"

text \<open>
  \<open>S.split(regexp)\<close>: the loop of the language's split over the positions \<open>q\<close>, with \<open>p\<close>
  the end of the previous separator. A match that ends at \<open>p\<close> is skipped.
\<close>

function splitLoop :: "(jsstring \<Rightarrow> nat \<Rightarrow> nat option) \<Rightarrow> jsstring \<Rightarrow> nat \<Rightarrow> nat \<Rightarrow> jsstring list" where
  "splitLoop m S p q =
     (if q < length S then
        (case m S q of
           None \<Rightarrow> splitLoop m S p (Suc q)
         | Some n \<Rightarrow>
            (let e = min (q + n) (length S)
             in if e = p then splitLoop m S p (Suc q)
                else take (q - p) (drop p S) # splitLoop m S e e))
      else [drop p S])"
  by pat_completeness auto
termination
  by (relation "measures [\<lambda>(m, S, p, q). length S - q, \<lambda>(m, S, p, q). if p = q then 0 else 1]")
     (auto simp: min_def split: if_splits)

definition split :: "(jsstring \<Rightarrow> nat \<Rightarrow> nat option) \<Rightarrow> jsstring \<Rightarrow> jsstring list" where
  "split m S =
     (if S = [] then (case m S 0 of None \<Rightarrow> [S] | Some _ \<Rightarrow> [])
      else splitLoop m S 0 0)"

text \<open>The loop over the sentences of one paragraph.\<close>

fun packSentences :: "nat \<Rightarrow> jsstring list \<Rightarrow> jsstring \<Rightarrow> jsstring list \<Rightarrow> jsstring \<times> jsstring list" where
  "packSentences maxChars [] currentChunk textChunks = (currentChunk, textChunks)"
| "packSentences maxChars (sentence # rest) currentChunk textChunks =
     (if trim sentence = [] then packSentences maxChars rest currentChunk textChunks
      else if (if currentChunk \<noteq> [] then length currentChunk + length sentence + 1
               else length sentence) \<le> maxChars
      then packSentences maxChars rest
             (currentChunk @ (if currentChunk \<noteq> [] then [32] else []) @ trim sentence)
             textChunks
      else packSentences maxChars rest (trim sentence)
             (if currentChunk \<noteq> [] then textChunks @ [currentChunk] else textChunks))"

text \<open>The loop over the paragraphs.\<close>

fun packParagraphs :: "nat \<Rightarrow> jsstring list \<Rightarrow> jsstring list \<Rightarrow> jsstring list" where
  "packParagraphs maxChars [] textChunks = textChunks"
| "packParagraphs maxChars (paragraph # rest) textChunks =
     (if trim paragraph = [] then packParagraphs maxChars rest textChunks
      else (case packSentences maxChars (split sentenceMatch paragraph) [] textChunks of
              (currentChunk, textChunks') \<Rightarrow>
                packParagraphs maxChars rest
                  (if currentChunk \<noteq> [] then textChunks' @ [currentChunk] else textChunks')))"

definition segmentText :: "nat \<Rightarrow> jsstring \<Rightarrow> jsstring list" where
  "segmentText maxChars text =
     (let textChunks = packParagraphs maxChars (split paragraphMatch text) []
      in if textChunks = [] \<and> trim text \<noteq> [] then [trim text] else textChunks)"

definition MAX_TEXT_LENGTH :: nat where
  "MAX_TEXT_LENGTH = 70000"

definition MAX_CHARS_PER_AUDIO_CHUNK :: nat where
  "MAX_CHARS_PER_AUDIO_CHUNK = 35000"

definition CONCURRENCY_LIMIT :: nat where
  "CONCURRENCY_LIMIT = 4"

text \<open>
  The text \<open>"An ox. Cdefghij\n\nOk"\<close> as code units: two paragraphs, the first of two
  sentences, the second of them longer than six characters.
\<close>

definition exText :: jsstring where
  "exText = [65, 110, 32, 111, 120, 46, 32, 67, 100, 101, 102, 103, 104, 105, 106, 10, 10, 79, 107]"

text \<open>The text \<open>"Abcdefgh. Ijklmnop."\<close>: two sentences of nine characters.\<close>

definition twoLong :: jsstring where
  "twoLong = [65, 98, 99, 100, 101, 102, 103, 104, 46, 32, 73, 106, 107, 108, 109, 110, 111, 112, 46]"

section \<open>Batch dispatch and assembly (components/AudioGenerator.tsx, handleGenerateAudio)\<close>

definition generateSpeech ::
  "string option \<Rightarrow> (nat \<Rightarrow> thrown_error + AudioBuffer) \<Rightarrow> RetryOptions \<Rightarrow> AudioBuffer call_outcome" where
  "generateSpeech key apiCall retryOptions =
     callGeminiApiWithRetries key apiCall ''speech generation'' retryOptions"

text \<open>
  The calls of one batch are in flight together and settle in an order the program does
  not control; the user may press the buttons at any moment. A schedule lists, for the
  batch that starts at chunk \<open>i\<close>, what happens while the run waits for that batch, in
  order: the settlements of its calls, the presses of Stop, the presses of Generate, and
  the end of a generation that such a press started. The retry loop of a call shares no
  state with the other calls, so the model runs it as a whole at the call's settlement; a
  stop request listed before a settlement is one that arrives while that call is in flight,
  before its first response.
\<close>

datatype event =
    Settled nat           \<comment> \<open>the call for this chunk returns or throws\<close>
  | StopRequested         \<comment> \<open>\<open>handleStopGeneration\<close>\<close>
  | GenerateRequested     \<comment> \<open>\<open>handleGenerateAudio\<close> is invoked again\<close>
  | GenerationEnded       \<comment> \<open>such a later invocation reaches its \<open>finally\<close> block\<close>

datatype ui_message =
    EmptyText | TextTooLong | NoValidText
  | ChunkFailed nat thrown     \<comment> \<open>"Erro no trecho \<open>j + 1\<close>: ..."\<close>
  | StoppedByUser              \<comment> \<open>set by \<open>handleStopGeneration\<close>\<close>
  | Interrupted                \<comment> \<open>"Geracao de audio interrompida."\<close>
  | Incomplete                 \<comment> \<open>"Alguns trechos do audio falharam na geracao. ..."\<close>
  | Unexpected audio_error     \<comment> \<open>"Ocorreu um erro inesperado: ..."\<close>

text \<open>
  The mutable state of a generation: the slots of \<open>orderedBuffers\<close> and the counter, which
  belong to the run, and the stop flag, the error shown and the state \<open>isGeneratingTTS\<close>,
  which belong to the component and are shared with every other invocation of
  \<open>handleGenerateAudio\<close>. Two logs make the remote activity observable: the chunks for
  which a speech call was started, and the backoff waits entered, each with its chunk.
\<close>

record session =
  orderedBuffers :: "AudioBuffer option list"
  processedChars :: nat
  stopGenerationRef :: bool
  uiError :: "ui_message option"
  isGeneratingTTS :: bool
  started :: "nat list"
  backoffWaits :: "(nat \<times> number) list"

text \<open>
  What a run is given: the chunks, the concurrency limit, the API key, the remote service
  (its answer to attempt \<open>k\<close> of the call for chunk \<open>j\<close>), the schedule, and whether the
  \<open>error\<close> state captured by the callback at its creation was set.
\<close>

record dispatch_env =
  textChunks :: "jsstring list"
  concurrency :: nat
  envApiKey :: "string option"
  remote :: "nat \<Rightarrow> jsstring \<Rightarrow> nat \<Rightarrow> thrown_error + AudioBuffer"
  sched :: "nat \<Rightarrow> event list"
  errorRendered :: bool

definition speechFor :: "dispatch_env \<Rightarrow> nat \<Rightarrow> AudioBuffer call_outcome" where
  "speechFor env j =
     generateSpeech (envApiKey env) (remote env j (textChunks env ! j))
       \<lparr>maxRetries = 3, initialDelayMs = Num 1000\<rparr>"

text \<open>
  A stop request is \<open>handleStopGeneration\<close>. A settlement runs the \<open>then\<close> callback of the
  call for chunk \<open>j\<close> when the call returned a buffer and the \<open>catch\<close> callback when it threw;
  both do nothing while the stop flag is set.

  A press of Generate invokes \<open>handleGenerateAudio\<close> again, at a moment when nothing is
  being combined, mixed, exported or loaded (an invocation at another moment returns at
  once and is no event). Its guard returns at once while \<open>isGeneratingTTS\<close> is set, which
  Stop clears; past the guard the invocation clears the stop flag and the error and, its
  text being the valid text of the run in flight, sets \<open>isGeneratingTTS\<close>. Of that later
  generation only these writes to the shared state are modelled, and those of its
  \<open>finally\<close> block, which clears \<open>isGeneratingTTS\<close> and the stop flag once more.
\<close>

fun handleEvent :: "dispatch_env \<Rightarrow> event \<Rightarrow> session \<Rightarrow> session" where
  "handleEvent env StopRequested st =
     st\<lparr>stopGenerationRef := True, isGeneratingTTS := False, uiError := Some StoppedByUser\<rparr>"
| "handleEvent env GenerateRequested st =
     (if isGeneratingTTS st then st
      else st\<lparr>stopGenerationRef := False, uiError := None, isGeneratingTTS := True\<rparr>)"
| "handleEvent env GenerationEnded st =
     st\<lparr>isGeneratingTTS := False, stopGenerationRef := False\<rparr>"
| "handleEvent env (Settled j) st =
     (let out = speechFor env j;
          st1 = st\<lparr>backoffWaits := backoffWaits st @ map (Pair j) (waited out)\<rparr>
      in case result out of
           Inr audioBuffer \<Rightarrow>
             if stopGenerationRef st1 then st1
             else st1\<lparr>orderedBuffers := (orderedBuffers st1)[j := Some audioBuffer],
                      processedChars := processedChars st1 + length (textChunks env ! j)\<rparr>
         | Inl chunkError \<Rightarrow>
             if stopGenerationRef st1 then st1
             else st1\<lparr>uiError := Some (ChunkFailed j chunkError)\<rparr>)"

text \<open>One pass of the body of the batch loop, from the start of the calls to \<open>Promise.all\<close>.\<close>

definition runBatch :: "dispatch_env \<Rightarrow> nat \<Rightarrow> session \<Rightarrow> session" where
  "runBatch env i st =
     (let batchEnd = min (i + concurrency env) (length (textChunks env));
          st1 = st\<lparr>started := started st @ [i..<batchEnd]\<rparr>
      in fold (handleEvent env) (sched env i) st1)"

text \<open>
  The batch loop \<open>for (let i = 0; i < textChunks.length; i += CONCURRENCY_LIMIT)\<close>, with
  its two exits. With a limit of 0 it need not end, so its result is optional.
\<close>

partial_function (option) dispatchLoop :: "dispatch_env \<Rightarrow> nat \<Rightarrow> session \<Rightarrow> session option" where
  "dispatchLoop env i st =
     (if i < length (textChunks env) then
        (if stopGenerationRef st then Some st
         else if errorRendered env \<or> stopGenerationRef (runBatch env i st)
              then Some (runBatch env i st)
              else dispatchLoop env (i + concurrency env) (runBatch env i st))
      else Some st)"

definition initialSession :: "nat \<Rightarrow> session" where
  "initialSession n =
     \<lparr>orderedBuffers = replicate n None, processedChars = 0, stopGenerationRef = False,
      uiError = None, isGeneratingTTS = True, started = [], backoffWaits = []\<rparr>"

text \<open>
  What a generation leaves behind: the list handed to \<open>combineAudioBuffers\<close>, if that was
  called at all, the buffer stored for playback and export, and the error shown.
\<close>

record outcome =
  assembled :: "AudioBuffer list option"
  currentAudioBuffer :: "AudioBuffer option"
  message :: "ui_message option"

text \<open>
  The code after the loop. \<open>music\<close> is the background track, present when one is selected
  and loaded. An exception of the combination or the mix is caught by the \<open>catch\<close> block.
\<close>

definition finishSession ::
  "AudioContext \<Rightarrow> AudioBuffer option \<Rightarrow> number \<Rightarrow> number \<Rightarrow> nat \<Rightarrow> session \<Rightarrow> outcome" where
  "finishSession context music speechVolume musicVolume n st =
     (let validBuffers = map the (filter (\<lambda>b. b \<noteq> None) (orderedBuffers st))
      in if \<not> stopGenerationRef st \<and> 0 < length validBuffers \<and> length validBuffers = n then
           (case combineAudioBuffers context validBuffers of
              Inl e \<Rightarrow> \<lparr>assembled = Some validBuffers, currentAudioBuffer = None,
                         message = Some (Unexpected e)\<rparr>
            | Inr combinedSpeechBuffer \<Rightarrow>
               (case music of
                  None \<Rightarrow> \<lparr>assembled = Some validBuffers,
                            currentAudioBuffer = Some combinedSpeechBuffer, message = uiError st\<rparr>
                | Some backgroundMusicBuffer \<Rightarrow>
                   (case mixAudioBuffers context combinedSpeechBuffer backgroundMusicBuffer
                           speechVolume musicVolume of
                      Inl e \<Rightarrow> \<lparr>assembled = Some validBuffers, currentAudioBuffer = None,
                                 message = Some (Unexpected e)\<rparr>
                    | Inr finalOutputBuffer \<Rightarrow>
                        \<lparr>assembled = Some validBuffers,
                         currentAudioBuffer = Some finalOutputBuffer, message = uiError st\<rparr>)))
         else if stopGenerationRef st then
           \<lparr>assembled = None, currentAudioBuffer = None, message = Some Interrupted\<rparr>
         else if length validBuffers \<noteq> n then
           \<lparr>assembled = None, currentAudioBuffer = None, message = Some Incomplete\<rparr>
         else \<lparr>assembled = None, currentAudioBuffer = None, message = uiError st\<rparr>)"

definition rejected :: "ui_message \<Rightarrow> outcome" where
  "rejected m = \<lparr>assembled = None, currentAudioBuffer = None, message = Some m\<rparr>"

text \<open>
  \<open>handleGenerateAudio\<close>, after its guard against a generation in progress: validation,
  segmentation, dispatch and assembly.
\<close>

definition handleGenerateAudio ::
  "AudioContext \<Rightarrow> AudioBuffer option \<Rightarrow> number \<Rightarrow> number \<Rightarrow> string option
     \<Rightarrow> (nat \<Rightarrow> jsstring \<Rightarrow> nat \<Rightarrow> thrown_error + AudioBuffer) \<Rightarrow> (nat \<Rightarrow> event list) \<Rightarrow> bool
     \<Rightarrow> jsstring \<Rightarrow> outcome option" where
  "handleGenerateAudio context music speechVolume musicVolume key service schedule staleError text =
     (if trim text = [] then Some (rejected EmptyText)
      else if MAX_TEXT_LENGTH < length text then Some (rejected TextTooLong)
      else
        (let chunks = segmentText MAX_CHARS_PER_AUDIO_CHUNK text
         in if chunks = [] then Some (rejected NoValidText)
            else map_option
                   (finishSession context music speechVolume musicVolume (length chunks))
                   (dispatchLoop
                      \<lparr>textChunks = chunks, concurrency = CONCURRENCY_LIMIT, envApiKey = key,
                       remote = service, sched = schedule, errorRendered = staleError\<rparr>
                      0 (initialSession (length chunks)))))"

text \<open>
  Five one-letter chunks dispatched two at a time. The service answers every first attempt:
  with a one-frame buffer that carries the chunk index, except for chunk 2, which it
  refuses. Each batch settles in reverse order.
\<close>

definition toneBuffer :: "nat \<Rightarrow> AudioBuffer" where
  "toneBuffer j = \<lparr>sampleRate = 24000, numberOfChannels = 1, blength = 1,
                   channels = [[Num (real j / 8)]]\<rparr>"

definition forbidden403 :: thrown_error where
  "forbidden403 = \<lparr>errorMessage = Some ''403 Forbidden'', errorCode = Some 403,
                    statusMessage = None, retryDelayMs = None\<rparr>"

definition exService :: "nat \<Rightarrow> jsstring \<Rightarrow> nat \<Rightarrow> thrown_error + AudioBuffer" where
  "exService j chunk k = (if j = 2 then Inl forbidden403 else Inr (toneBuffer j))"

definition reversedBatches :: "nat \<Rightarrow> nat \<Rightarrow> nat \<Rightarrow> event list" where
  "reversedBatches limit n i = rev (map Settled [i..<min (i + limit) n])"

definition exEnv :: dispatch_env where
  "exEnv = \<lparr>textChunks = [[65], [66], [67], [68], [69]], concurrency = 2,
            envApiKey = Some ''key'', remote = exService,
            sched = reversedBatches 2 5, errorRendered = False\<rparr>"

text \<open>A service that refuses the second chunk of a text.\<close>

definition refusesSecond :: "nat \<Rightarrow> jsstring \<Rightarrow> nat \<Rightarrow> thrown_error + AudioBuffer" where
  "refusesSecond j chunk k = (if j = 1 then Inl forbidden403 else Inr (toneBuffer j))"









text \<open>Two mono buffers of 1000 and 500 frames at 24 kHz.\<close>

definition exA :: AudioBuffer where
  "exA = \<lparr>sampleRate = 24000, numberOfChannels = 1, blength = 1000,
          channels = [replicate 999 (Num 0) @ [Num (1/2)]]\<rparr>"

definition exB :: AudioBuffer where
  "exB = \<lparr>sampleRate = 24000, numberOfChannels = 1, blength = 500,
          channels = [Num (-1/4) # replicate 499 (Num 0)]\<rparr>"

text \<open>A four-frame speech buffer and a two-frame music loop, both mono at 24 kHz.\<close>

definition exSpeech :: AudioBuffer where
  "exSpeech = \<lparr>sampleRate = 24000, numberOfChannels = 1, blength = 4,
               channels = [map Num [1/2, 3/4, -1/2, 1/4]]\<rparr>"

definition exMusic :: AudioBuffer where
  "exMusic = \<lparr>sampleRate = 24000, numberOfChannels = 1, blength = 2,
              channels = [map Num [3/4, -1]]\<rparr>"

text \<open>
  A two-frame speech buffer that starts with the binary32 value nearest to 0.1, and a
  one-frame music loop holding the binary32 value nearest to 0.2.
\<close>

definition roundedSpeech :: AudioBuffer where
  "roundedSpeech = \<lparr>sampleRate = 24000, numberOfChannels = 1, blength = 2,
                    channels = [map Num [13421773/134217728, 1/2]]\<rparr>"

definition roundedMusic :: AudioBuffer where
  "roundedMusic = \<lparr>sampleRate = 24000, numberOfChannels = 1, blength = 1,
                   channels = [map Num [13421773/67108864]]\<rparr>"

text \<open>A stereo track at 44.1 kHz, as a decoded music file may be.\<close>

definition exStereo :: AudioBuffer where
  "exStereo = \<lparr>sampleRate = 44100, numberOfChannels = 2, blength = 2,
               channels = [map Num [3/4, -1], map Num [0, 1/8]]\<rparr>"

section \<open>Predicates of the statements and of their proofs\<close>

text \<open>A matcher whose matches lie inside the string and consist of white space.\<close>

definition whiteMatcher :: "(jsstring \<Rightarrow> nat \<Rightarrow> nat option) \<Rightarrow> bool" where
  "whiteMatcher m \<longleftrightarrow>
     (\<forall>S q n. m S q = Some n \<longrightarrow> q + n \<le> length S \<and> (\<forall>i. q \<le> i \<and> i < q + n \<longrightarrow> isWhiteSpace (S ! i)))"

text \<open>
  What the packing loops maintain: a chunk is not empty, and it fits the limit unless it
  is a single trimmed sentence.
\<close>

definition okChunk :: "nat \<Rightarrow> jsstring set \<Rightarrow> jsstring \<Rightarrow> bool" where
  "okChunk maxChars sentences c \<longleftrightarrow>
     c \<noteq> [] \<and> (length c \<le> maxChars \<or> c \<in> trim ` sentences)"

text \<open>
  The sentences of a text in order, trimmed and without the blank ones; sentences joined
  by single spaces; and a group of sentences that may form a chunk: it is not empty, none
  of its sentences is, and it is a single sentence when the joined group exceeds the limit.
\<close>

definition trimmedSentences :: "jsstring \<Rightarrow> jsstring list" where
  "trimmedSentences text =
     concat (map (\<lambda>p. filter (\<lambda>s. s \<noteq> []) (map trim (split sentenceMatch p)))
               (split paragraphMatch text))"

fun joinSpace :: "jsstring list \<Rightarrow> jsstring" where
  "joinSpace [] = []"
| "joinSpace [s] = s"
| "joinSpace (s # t # rest) = s @ [32] @ joinSpace (t # rest)"

definition okGroup :: "nat \<Rightarrow> jsstring list \<Rightarrow> bool" where
  "okGroup maxChars g \<longleftrightarrow>
     g \<noteq> [] \<and> [] \<notin> set g \<and> (maxChars < length (joinSpace g) \<longrightarrow> length g = 1)"

text \<open>The sentences of a list of paragraphs.\<close>

definition sentencesOf :: "jsstring list \<Rightarrow> jsstring set" where
  "sentencesOf paragraphs = (\<Union>p\<in>set paragraphs. set (split sentenceMatch p))"

text \<open>A filled slot holds the buffer returned by the call for the chunk of that index.\<close>

definition slotsRight :: "dispatch_env \<Rightarrow> session \<Rightarrow> bool" where
  "slotsRight env st \<longleftrightarrow>
     length (orderedBuffers st) = length (textChunks env) \<and>
     (\<forall>j<length (textChunks env). \<forall>b. orderedBuffers st ! j = Some b
            \<longrightarrow> result (speechFor env j) = Inr b)"

text \<open>
  The slot a chunk should end up with: the buffer of its call, or nothing when the call
  threw. A batch's schedule is a completion order when it settles each call of the batch
  once, in any order, and holds no stop request.
\<close>

definition slotOf :: "dispatch_env \<Rightarrow> nat \<Rightarrow> AudioBuffer option" where
  "slotOf env j = (case result (speechFor env j) of Inr b \<Rightarrow> Some b | Inl _ \<Rightarrow> None)"

definition completionOrder :: "dispatch_env \<Rightarrow> nat \<Rightarrow> event list \<Rightarrow> bool" where
  "completionOrder env i es \<longleftrightarrow>
     distinct es \<and>
     set es = Settled ` {i..<min (i + concurrency env) (length (textChunks env))}"

definition uninterrupted :: "dispatch_env \<Rightarrow> bool" where
  "uninterrupted env \<longleftrightarrow>
     \<not> errorRendered env \<and>
     (\<forall>i<length (textChunks env). concurrency env dvd i \<longrightarrow> completionOrder env i (sched env i))"

text \<open>
  A stop request stands at the end of a batch when the last event of the batch that is not
  a settlement is a stop request: no press of Generate and no end of a later generation
  came after it.
\<close>

fun isSettled :: "event \<Rightarrow> bool" where
  "isSettled (Settled j) = True"
| "isSettled e = False"


text \<open>Before the batch at \<open>i\<close>: the slots below \<open>i\<close> are settled, the others empty.\<close>

definition settledBelow :: "dispatch_env \<Rightarrow> nat \<Rightarrow> session \<Rightarrow> bool" where
  "settledBelow env i st \<longleftrightarrow>
     \<not> stopGenerationRef st \<and>
     length (orderedBuffers st) = length (textChunks env) \<and>
     (\<forall>j<length (textChunks env).
        orderedBuffers st ! j = (if j < i then slotOf env j else None))"

section \<open>Properties of the rounding\<close>

lemma pow2_powi: "pow2 q = 2 powi q"
  by (simp add: pow2_def power_int_def inverse_eq_divide power_one_over)

lemma pow2_pos [simp]: "0 < pow2 q"
  by (simp add: pow2_powi)

lemma pow2_add: "pow2 (a + b) = pow2 a * pow2 b"
  by (simp add: pow2_powi power_int_add)

lemma pow2_mono: "a \<le> b \<Longrightarrow> pow2 a \<le> pow2 b"
  by (simp add: pow2_powi power_int_increasing)

lemma pow2_less_cancel: "pow2 a < pow2 b \<Longrightarrow> a < b"
  using pow2_mono [of b a] by (cases "a < b") simp_all

lemma pow2_nat: "pow2 (int n) = 2 ^ n"
  by (simp add: pow2_def)

lemma pow2_neg: "pow2 (- a) = 1 / pow2 a"
  by (simp add: pow2_powi power_int_minus divide_inverse)

lemma floorLog2_ge: "lo \<le> floorLog2 k lo x"
proof (induction k arbitrary: lo)
  case 0
  then show ?case by simp
next
  case (Suc k)
  have "lo \<le> lo + 2 ^ k"
    by simp
  also have "\<dots> \<le> floorLog2 k (lo + 2 ^ k) x"
    by (rule Suc.IH)
  finally show ?case
    using Suc.IH [of lo] by simp
qed

lemma floorLog2_lower: "floorLog2 k lo x = lo \<or> pow2 (floorLog2 k lo x) \<le> x"
proof (induction k arbitrary: lo)
  case 0
  then show ?case by simp
next
  case (Suc k)
  show ?case
  proof (cases "pow2 (lo + 2 ^ k) \<le> x")
    case True
    then show ?thesis
      using Suc.IH [of "lo + 2 ^ k"] by auto
  next
    case False
    then show ?thesis
      using Suc.IH [of lo] by simp
  qed
qed

lemma floorLog2_upper: "x < pow2 (lo + 2 ^ k) \<Longrightarrow> x < pow2 (floorLog2 k lo x + 1)"
proof (induction k arbitrary: lo)
  case 0
  then show ?case by simp
next
  case (Suc k)
  show ?case
  proof (cases "pow2 (lo + 2 ^ k) \<le> x")
    case True
    have "x < pow2 (lo + 2 ^ k + 2 ^ k)"
      using Suc.prems by (simp add: add.assoc)
    then show ?thesis
      using True Suc.IH [of "lo + 2 ^ k"] by simp
  next
    case False
    then show ?thesis
      using Suc.IH [of lo] by simp
  qed
qed

lemma roundTiesToEven_int [simp]: "roundTiesToEven (of_int n) = n"
  by (simp add: roundTiesToEven_def)

lemma roundTiesToEven_le: "x \<le> of_int n \<Longrightarrow> roundTiesToEven x \<le> n"
proof -
  assume le: "x \<le> of_int n"
  show ?thesis
  proof (cases "x = of_int n")
    case True
    then show ?thesis by simp
  next
    case False
    then have "x < of_int n"
      using le by simp
    then have "\<lfloor>x\<rfloor> < n"
      by (simp add: floor_less_iff)
    then have "\<lfloor>x\<rfloor> + 1 \<le> n"
      by simp
    then show ?thesis
      by (auto simp: roundTiesToEven_def Let_def)
  qed
qed

lemma roundTiesToEven_ge: "of_int n \<le> x \<Longrightarrow> n \<le> roundTiesToEven x"
proof -
  assume "of_int n \<le> x"
  then have "n \<le> \<lfloor>x\<rfloor>"
    by (simp add: le_floor_iff)
  then show ?thesis
    by (auto simp: roundTiesToEven_def Let_def)
qed


lemma pow2_nonzero [simp]: "pow2 q \<noteq> 0"
proof
  assume "pow2 q = 0"
  then show False
    using pow2_pos [of q] by (simp only: less_irrefl)
qed

lemma pow2_nonneg [simp]: "0 \<le> pow2 q"
  using pow2_pos [of q] by (rule less_imp_le)

lemma pow2_cancel: "pow2 (- q) * pow2 q = 1"
  using pow2_add [of "- q" q] by (simp add: pow2_def)

lemma quantum_nonpos:
  assumes K: "\<bar>x\<bar> \<le> real_of_int K" and Kp: "real_of_int K < pow2 (int p)"
    and p: "emin w \<le> int p - 1"
  shows "floorLog2 w (emin w) \<bar>x\<bar> - (int p - 1) \<le> 0"
proof -
  let ?e = "floorLog2 w (emin w) \<bar>x\<bar>"
  consider "?e = emin w" | "pow2 ?e \<le> \<bar>x\<bar>"
    using floorLog2_lower [of w "emin w" "\<bar>x\<bar>"] by blast
  then have "?e \<le> int p - 1"
  proof cases
    case 1
    then show ?thesis
      using p by simp
  next
    case 2
    then have "pow2 ?e < pow2 (int p)"
      using K Kp by simp
    then have "?e < int p"
      by (rule pow2_less_cancel)
    then show ?thesis
      by simp
  qed
  then show ?thesis
    by simp
qed

lemma nearest_bounded:
  assumes K: "\<bar>x\<bar> \<le> real_of_int K" and Kp: "real_of_int K < pow2 (int p)"
    and p: "emin w \<le> int p - 1"
  shows "\<bar>nearest p w x\<bar> \<le> real_of_int K"
proof -
  define q where "q = floorLog2 w (emin w) \<bar>x\<bar> - (int p - 1)"
  define M where "M = (2::int) ^ nat (- q)"
  have q: "q \<le> 0"
    unfolding q_def using K Kp p by (rule quantum_nonpos)
  have M: "pow2 (- q) = real_of_int M"
    using q by (simp add: pow2_def M_def)
  have Mpos: "0 < real_of_int M"
    using M pow2_pos [of "- q"] by simp
  have "x / pow2 q = x * pow2 (- q)"
    by (simp add: pow2_neg)
  then have d: "x / pow2 q = x * real_of_int M"
    by (simp only: M)
  have "x \<le> real_of_int K" "- real_of_int K \<le> x"
    using K by linarith+
  then have "x * real_of_int M \<le> real_of_int K * real_of_int M"
    "(- real_of_int K) * real_of_int M \<le> x * real_of_int M"
    using Mpos by (simp_all only: mult_right_mono less_imp_le)
  then have "x * real_of_int M \<le> real_of_int (K * M)" "real_of_int (- (K * M)) \<le> x * real_of_int M"
    by simp_all
  then have "roundTiesToEven (x * real_of_int M) \<le> K * M"
    "- (K * M) \<le> roundTiesToEven (x * real_of_int M)"
    by (simp_all only: roundTiesToEven_le roundTiesToEven_ge)
  then have "\<bar>real_of_int (roundTiesToEven (x * real_of_int M))\<bar> \<le> real_of_int (K * M)"
    by linarith
  then have "\<bar>real_of_int (roundTiesToEven (x * real_of_int M))\<bar> * pow2 q
               \<le> real_of_int (K * M) * pow2 q"
    by (intro mult_right_mono) simp_all
  also have "real_of_int (K * M) * pow2 q = real_of_int K * (pow2 (- q) * pow2 q)"
    by (simp add: M)
  also have "\<dots> = real_of_int K"
    by (simp only: pow2_cancel mult_1_right)
  finally have "\<bar>real_of_int (roundTiesToEven (x * real_of_int M)) * pow2 q\<bar> \<le> real_of_int K"
    by (simp add: abs_mult)
  then show ?thesis
    by (simp add: nearest_def Let_def q_def [symmetric] d)
qed

lemma roundTo_bounded:
  assumes K: "\<bar>x\<bar> \<le> real_of_int K" and Kp: "real_of_int K < pow2 (int p)"
    and p: "emin w \<le> int p - 1" and ov: "int p \<le> emax w + 1"
  shows "roundTo p w x = Num (nearest p w x) \<and> \<bar>nearest p w x\<bar> \<le> real_of_int K"
proof -
  have b: "\<bar>nearest p w x\<bar> \<le> real_of_int K"
    using K Kp p by (rule nearest_bounded)
  have "pow2 (int p) \<le> pow2 (emax w + 1)"
    using ov by (rule pow2_mono)
  then have "\<not> pow2 (emax w + 1) \<le> \<bar>nearest p w x\<bar>"
    using b Kp by simp
  then show ?thesis
    using b by (simp add: roundTo_def Let_def)
qed

lemma nearest_exact:
  assumes x: "x = real_of_int n * pow2 q0"
    and q: "floorLog2 w (emin w) \<bar>x\<bar> - (int p - 1) \<le> q0"
  shows "nearest p w x = x"
proof -
  define q where "q = floorLog2 w (emin w) \<bar>x\<bar> - (int p - 1)"
  define M where "M = (2::int) ^ nat (q0 - q)"
  have le: "q \<le> q0"
    unfolding q_def by (rule q)
  have "pow2 q0 = pow2 (q0 - q) * pow2 q"
    using pow2_add [of "q0 - q" q] by simp
  also have "pow2 (q0 - q) = real_of_int M"
    using le by (simp add: pow2_def M_def)
  finally have s: "pow2 q0 = real_of_int M * pow2 q" .
  have d: "x / pow2 q = real_of_int (n * M)"
    by (simp add: x s)
  have "nearest p w x = real_of_int (n * M) * pow2 q"
    by (simp only: nearest_def Let_def q_def [symmetric] d roundTiesToEven_int)
  also have "\<dots> = x"
    by (simp add: x s)
  finally show ?thesis .
qed

lemma scaled_sample_exact:
  assumes f: "isFloat32 x" and x1: "\<bar>x\<bar> \<le> 1" and K: "\<bar>K\<bar> \<le> 32768"
  shows "toFloat64 (x * real_of_int K) = Num (x * real_of_int K)"
proof -
  define e where "e = floorLog2 8 (emin 8) \<bar>x\<bar>"
  define n where "n = roundTiesToEven (x / pow2 (e - 23))"
  let ?y = "x * real_of_int K"
  have "nearest 24 8 x = x"
    using f by (auto simp: isFloat32_def toFloat32_def roundTo_def Let_def split: if_splits)
  then have x: "x = real_of_int n * pow2 (e - 23)"
    by (simp add: nearest_def Let_def e_def n_def)
  then have y: "?y = real_of_int (n * K) * pow2 (e - 23)"
    by simp
  have elo: "emin 8 \<le> e"
    unfolding e_def by (rule floorLog2_ge)
  have "\<bar>x\<bar> < pow2 (emin 8 + 2 ^ 8)"
    using x1 by (simp add: emin_def pow2_def)
  then have xu: "\<bar>x\<bar> < pow2 (e + 1)"
    unfolding e_def by (rule floorLog2_upper)
  have Kr: "\<bar>real_of_int K\<bar> \<le> 32768"
    using K by linarith
  have "\<bar>?y\<bar> = \<bar>x\<bar> * \<bar>real_of_int K\<bar>"
    by (simp add: abs_mult)
  also have "\<dots> \<le> \<bar>x\<bar> * 32768"
    using Kr by (intro mult_left_mono) simp_all
  also have "\<dots> < pow2 (e + 1) * 32768"
    using xu by simp
  also have "\<dots> = pow2 (e + 1 + 15)"
  proof -
    have "pow2 15 = 32768"
      by (simp add: pow2_def)
    then show ?thesis
      by (simp only: pow2_add [of "e + 1" 15])
  qed
  finally have yu: "\<bar>?y\<bar> < pow2 (e + 16)"
    by (simp add: add.assoc)
  let ?e' = "floorLog2 11 (emin 11) \<bar>?y\<bar>"
  consider "?e' = emin 11" | "pow2 ?e' \<le> \<bar>?y\<bar>"
    using floorLog2_lower [of 11 "emin 11" "\<bar>?y\<bar>"] by blast
  then have "?e' \<le> e + 29"
  proof cases
    case 1
    then show ?thesis
      using elo by (simp add: emin_def)
  next
    case 2
    then have "pow2 ?e' < pow2 (e + 16)"
      using yu by simp
    then have "?e' < e + 16"
      by (rule pow2_less_cancel)
    then show ?thesis
      by simp
  qed
  then have "?e' - (int 53 - 1) \<le> e - 23"
    by simp
  with y have ex: "nearest 53 11 ?y = ?y"
    by (rule nearest_exact)
  have "\<bar>?y\<bar> \<le> 1 * 32768"
    unfolding abs_mult using x1 Kr by (intro mult_mono) simp_all
  then have "\<not> pow2 (emax 11 + 1) \<le> \<bar>?y\<bar>"
    by (simp add: emax_def pow2_def)
  then show ?thesis
    by (simp add: toFloat64_def roundTo_def Let_def ex)
qed

lemma toFloat32_unit:
  assumes "\<bar>y\<bar> \<le> 1"
  shows "\<exists>r. toFloat32 y = Num r \<and> \<bar>r\<bar> \<le> 1"
proof -
  have "roundTo 24 8 y = Num (nearest 24 8 y) \<and> \<bar>nearest 24 8 y\<bar> \<le> real_of_int 1"
    using assms by (intro roundTo_bounded) (simp_all add: pow2_def emin_def emax_def)
  then show ?thesis
    by (simp add: toFloat32_def)
qed



lemmas float_eval = toFloat64_def toFloat32_def roundTo_def nearest_def emin_def emax_def pow2_def
  roundTiesToEven_def Let_def eval_nat_numeral

section \<open>Properties of combineAudioBuffers\<close>

lemma sumLengths_uniform:
  "list_all (\<lambda>b. sampleRate b = r \<and> numberOfChannels b = n) bs \<Longrightarrow>
   sumLengths r n bs t = Inr (t + sum_list (map blength bs))"
  by (induction bs arbitrary: t) simp_all

lemma sumLengths_mismatch:
  "\<not> list_all (\<lambda>b. sampleRate b = r \<and> numberOfChannels b = n) bs \<Longrightarrow>
   sumLengths r n bs t = Inl IncompatibleBuffers"
  by (induction bs arbitrary: t) simp_all

lemma getChannelData_wf:
  "wf_buffer b \<Longrightarrow> c < numberOfChannels b \<Longrightarrow> getChannelData b c = Inr (channels b ! c)"
  by (simp add: wf_buffer_def getChannelData_def)

lemma wf_channel_length:
  "wf_buffer b \<Longrightarrow> c < numberOfChannels b \<Longrightarrow> length (channels b ! c) = blength b"
  by (simp add: wf_buffer_def list_all_length)

lemma typed_set_fits:
  "offset + length source \<le> length target \<Longrightarrow>
   typed_set target source offset =
     Inr (take offset target @ source @ drop (offset + length source) target)"
  by (simp add: typed_set_def)

lemma copyChannel_concat:
  "list_all (\<lambda>b. wf_buffer b \<and> c < numberOfChannels b) bs \<Longrightarrow>
   off + sum_list (map blength bs) \<le> length out \<Longrightarrow>
   copyChannel c bs off out =
     Inr (take off out @ concat (map (\<lambda>b. channels b ! c) bs)
            @ drop (off + sum_list (map blength bs)) out)"
proof (induction bs arbitrary: off out)
  case Nil
  then show ?case by simp
next
  case (Cons b bs)
  let ?src = "channels b ! c"
  let ?out' = "take off out @ ?src @ drop (off + blength b) out"
  let ?rest = "sum_list (map blength bs)"
  have wfb: "wf_buffer b" "c < numberOfChannels b"
    and wfs: "list_all (\<lambda>b. wf_buffer b \<and> c < numberOfChannels b) bs"
    using Cons.prems(1) by simp_all
  have len: "length ?src = blength b"
    using wfb by (rule wf_channel_length)
  have g: "getChannelData b c = Inr ?src"
    using wfb by (rule getChannelData_wf)
  have fits: "off + blength b + ?rest \<le> length out"
    using Cons.prems(2) by simp
  have s: "typed_set out ?src off = Inr ?out'"
    using fits typed_set_fits [of off ?src out] by (simp add: len)
  have l': "length ?out' = length out"
    using fits len by simp
  have ih: "copyChannel c bs (off + blength b) ?out' =
     Inr (take (off + blength b) ?out' @ concat (map (\<lambda>b. channels b ! c) bs)
            @ drop (off + blength b + ?rest) ?out')"
    using wfs fits by (intro Cons.IH) (simp_all only: l')
  have t: "take (off + blength b) ?out' = take off out @ ?src"
    using fits len by simp
  have d: "drop (off + blength b + ?rest) ?out' = drop (off + blength b + ?rest) out"
    using fits len by (simp add: add.commute)
  have "copyChannel c (b # bs) off out = copyChannel c bs (off + blength b) ?out'"
    by (simp add: g s)
  also have "\<dots> = Inr ((take off out @ ?src) @ concat (map (\<lambda>b. channels b ! c) bs)
            @ drop (off + blength b + ?rest) out)"
    by (simp only: ih t d)
  finally show ?case
    by (simp add: add.assoc)
qed

lemma copyChannels_result:
  "list_all (\<lambda>b. wf_buffer b \<and> numberOfChannels b = n) bs \<Longrightarrow>
   numberOfChannels combined = n \<Longrightarrow> length (channels combined) = n \<Longrightarrow>
   list_all (\<lambda>ch. length ch = sum_list (map blength bs)) (channels combined) \<Longrightarrow>
   list_all (\<lambda>c. c < n) cs \<Longrightarrow>
   copyChannels bs cs combined =
     Inr (combined\<lparr>channels :=
            map (\<lambda>c. if c \<in> set cs then concat (map (\<lambda>b. channels b ! c) bs)
                       else channels combined ! c) [0..<n]\<rparr>)"
proof (induction cs arbitrary: combined)
  case Nil
  have "map ((!) (channels combined)) [0..<n] = channels combined"
    using Nil.prems(3) map_nth [of "channels combined"] by simp
  then show ?case by simp
next
  case (Cons c cs)
  let ?tot = "sum_list (map blength bs)"
  let ?new = "concat (map (\<lambda>b. channels b ! c) bs)"
  let ?out = "channels combined ! c"
  let ?combined' = "combined\<lparr>channels := (channels combined)[c := ?new]\<rparr>"
  have c: "c < n" and cs: "list_all (\<lambda>c. c < n) cs"
    using Cons.prems(5) by simp_all
  have wfc: "list_all (\<lambda>b. wf_buffer b \<and> c < numberOfChannels b) bs"
    using Cons.prems(1) c by (simp add: list_all_iff)
  have g: "getChannelData combined c = Inr ?out"
    using c Cons.prems(2,3) by (simp add: getChannelData_def)
  have lo: "length ?out = ?tot"
    using c Cons.prems(3,4) by (simp add: list_all_length)
  have m: "map (\<lambda>b. length (channels b ! c)) bs = map blength bs"
    using wfc by (induction bs) (simp_all add: wf_channel_length)
  have "length ?new = sum_list (map (\<lambda>b. length (channels b ! c)) bs)"
    by (simp add: length_concat comp_def)
  then have ln: "length ?new = ?tot"
    by (simp only: m)
  have cp: "copyChannel c bs 0 ?out = Inr ?new"
    using copyChannel_concat [OF wfc, of 0 ?out] lo by simp
  have lens: "list_all (\<lambda>ch. length ch = ?tot) (channels ?combined')"
    using Cons.prems(3,4) c ln by (auto simp: list_all_length nth_list_update)
  have ih: "copyChannels bs cs ?combined' =
     Inr (?combined'\<lparr>channels :=
            map (\<lambda>k. if k \<in> set cs then concat (map (\<lambda>b. channels b ! k) bs)
                       else channels ?combined' ! k) [0..<n]\<rparr>)"
    using Cons.prems(1) lens cs by (intro Cons.IH) (simp_all add: Cons.prems(2,3))
  have eq: "map (\<lambda>k. if k \<in> set cs then concat (map (\<lambda>b. channels b ! k) bs)
                       else channels ?combined' ! k) [0..<n]
          = map (\<lambda>k. if k \<in> set (c # cs) then concat (map (\<lambda>b. channels b ! k) bs)
                       else channels combined ! k) [0..<n]"
    using Cons.prems(3) by (auto simp: nth_list_update)
  show ?case
    by (simp only: copyChannels.simps g cp sum.case ih eq) simp
qed

lemma combine_nonempty:
  "buffers \<noteq> [] \<Longrightarrow>
   combineAudioBuffers context buffers =
     (case sumLengths (sampleRate (hd buffers)) (numberOfChannels (hd buffers)) buffers 0 of
            Inl e \<Rightarrow> Inl e
          | Inr totalLength \<Rightarrow>
              copyChannels buffers [0..<numberOfChannels (hd buffers)]
                (createBuffer context (numberOfChannels (hd buffers)) totalLength
                   (sampleRate (hd buffers))))"
  by (cases buffers) (auto simp: combineAudioBuffers_def split: sum.split)

lemma combine_uniform:
  assumes ne: "buffers \<noteq> []"
    and wf: "list_all wf_buffer buffers"
    and fmt: "list_all (\<lambda>b. sampleRate b = r \<and> numberOfChannels b = n) buffers"
  shows "combineAudioBuffers context buffers =
     Inr \<lparr>sampleRate = r, numberOfChannels = n, blength = sum_list (map blength buffers),
          channels = map (\<lambda>c. concat (map (\<lambda>b. channels b ! c) buffers)) [0..<n]\<rparr>"
proof -
  let ?tot = "sum_list (map blength buffers)"
  let ?fresh = "createBuffer context n ?tot r"
  have "hd buffers \<in> set buffers"
    using ne by simp
  then have h: "sampleRate (hd buffers) = r" "numberOfChannels (hd buffers) = n"
    using fmt unfolding list_all_iff by blast+
  have s: "sumLengths r n buffers 0 = Inr ?tot"
    using sumLengths_uniform [OF fmt, of 0] by simp
  have wfn: "list_all (\<lambda>b. wf_buffer b \<and> numberOfChannels b = n) buffers"
    using wf fmt unfolding list_all_iff by blast
  have "copyChannels buffers [0..<n] ?fresh =
     Inr (?fresh\<lparr>channels :=
            map (\<lambda>c. if c \<in> set [0..<n] then concat (map (\<lambda>b. channels b ! c) buffers)
                       else channels ?fresh ! c) [0..<n]\<rparr>)"
    using wfn by (rule copyChannels_result) (simp_all add: createBuffer_def list_all_length)
  also have "map (\<lambda>c. if c \<in> set [0..<n] then concat (map (\<lambda>b. channels b ! c) buffers)
                       else channels ?fresh ! c) [0..<n]
      = map (\<lambda>c. concat (map (\<lambda>b. channels b ! c) buffers)) [0..<n]"
    by simp
  finally have c: "copyChannels buffers [0..<n] ?fresh =
     Inr \<lparr>sampleRate = r, numberOfChannels = n, blength = ?tot,
          channels = map (\<lambda>c. concat (map (\<lambda>b. channels b ! c) buffers)) [0..<n]\<rparr>"
    by (simp add: createBuffer_def)
  show ?thesis
    by (simp only: combine_nonempty [OF ne] h s c sum.case)
qed


text \<open>
  C10. Called with an empty list of buffers, \<open>combineAudioBuffers\<close> raises nothing: it
  returns a fresh silent buffer of one channel and one frame (the sample 0) at the sample
  rate of the context.
\<close>

theorem combine_empty_silent:
  "combineAudioBuffers context [] =
     Inr \<lparr>sampleRate = ctxSampleRate context, numberOfChannels = 1, blength = 1,
          channels = [[Num 0]]\<rparr>"
  by (simp add: combineAudioBuffers_def createBuffer_def)

text \<open>
  C7. For a non-empty list of well-formed buffers that share sample rate and channel count,
  \<open>combineAudioBuffers\<close> returns a buffer whose length is the sum of the input lengths and
  whose channels are the inputs' channels copied one after the other, unchanged. With
  lengths 1000 and 500 the result has length 1500, sample 999 is the last sample of the
  first buffer and sample 1000 the first sample of the second.
\<close>

theorem combine_concatenates:
  assumes ne: "buffers \<noteq> []"
    and wf: "\<forall>b\<in>set buffers. wf_buffer b"
    and fmt: "\<forall>b\<in>set buffers. sampleRate b = sampleRate (hd buffers)
                \<and> numberOfChannels b = numberOfChannels (hd buffers)"
  shows "\<exists>out. combineAudioBuffers context buffers = Inr out
      \<and> sampleRate out = sampleRate (hd buffers)
      \<and> numberOfChannels out = numberOfChannels (hd buffers)
      \<and> blength out = sum_list (map blength buffers)
      \<and> length (channels out) = numberOfChannels out
      \<and> (\<forall>c<numberOfChannels out. channels out ! c = concat (map (\<lambda>b. channels b ! c) buffers))
      \<and> (\<forall>A B. buffers = [A, B] \<and> blength A = 1000 \<and> blength B = 500 \<longrightarrow>
            blength out = 1500 \<and>
            (\<forall>c<numberOfChannels out.
               channels out ! c ! 999 = last (channels A ! c) \<and>
               channels out ! c ! 1000 = hd (channels B ! c)))"
proof -
  let ?n = "numberOfChannels (hd buffers)"
  let ?out = "\<lparr>sampleRate = sampleRate (hd buffers), numberOfChannels = ?n,
          blength = sum_list (map blength buffers),
          channels = map (\<lambda>c. concat (map (\<lambda>b. channels b ! c) buffers)) [0..<?n]\<rparr>"
  have wf': "list_all wf_buffer buffers"
    using wf by (simp only: list_all_iff)
  have fmt': "list_all (\<lambda>b. sampleRate b = sampleRate (hd buffers)
                \<and> numberOfChannels b = ?n) buffers"
    using fmt by (simp only: list_all_iff)
  have r: "combineAudioBuffers context buffers = Inr ?out"
    by (rule combine_uniform [OF ne wf' fmt'])
  have two: "blength ?out = 1500 \<and>
            (\<forall>c<numberOfChannels ?out.
               channels ?out ! c ! 999 = last (channels A ! c) \<and>
               channels ?out ! c ! 1000 = hd (channels B ! c))"
    if ab: "buffers = [A, B] \<and> blength A = 1000 \<and> blength B = 500" for A B
  proof -
    have wfab: "wf_buffer A" "wf_buffer B"
      using ab wf by simp_all
    have hdA: "hd buffers = A"
      using ab by simp
    have nB: "numberOfChannels B = numberOfChannels A"
      using ab fmt by simp
    have "channels ?out ! c ! 999 = last (channels A ! c) \<and>
          channels ?out ! c ! 1000 = hd (channels B ! c)" if c: "c < numberOfChannels A" for c
    proof -
      have la: "length (channels A ! c) = 1000"
        using wf_channel_length [OF wfab(1) c] ab by simp
      have lb: "length (channels B ! c) = 500"
        using wf_channel_length [OF wfab(2), of c] c nB ab by simp
      have ne: "channels A ! c \<noteq> []" "channels B ! c \<noteq> []"
        using la lb by auto
      have e: "last (channels A ! c) = channels A ! c ! 999" "hd (channels B ! c) = channels B ! c ! 0"
        using ne la by (simp_all add: last_conv_nth hd_conv_nth)
      have "channels ?out ! c = channels A ! c @ channels B ! c"
        using c ab by simp
      then show ?thesis
        using la lb by (simp add: nth_append e)
    qed
    then show ?thesis
      using ab by simp
  qed
  show ?thesis
    using two by (intro exI [of _ ?out]) (simp add: r)
qed

theorem combine_concatenates_witness:
  "wf_buffer exA \<and> wf_buffer exB \<and>
   (\<exists>out. combineAudioBuffers \<lparr>ctxSampleRate = 24000\<rparr> [exA, exB] = Inr out
      \<and> blength out = 1500 \<and> numberOfChannels out = 1
      \<and> channels out ! 0 = channels exA ! 0 @ channels exB ! 0
      \<and> channels out ! 0 ! 999 = Num (1/2) \<and> channels out ! 0 ! 1000 = Num (-1/4))"
proof -
  have wf: "wf_buffer exA" "wf_buffer exB"
    by (simp_all add: wf_buffer_def exA_def exB_def)
  have wfs: "\<forall>b\<in>set [exA, exB]. wf_buffer b"
    using wf by simp
  have fmt: "\<forall>b\<in>set [exA, exB]. sampleRate b = sampleRate (hd [exA, exB])
                \<and> numberOfChannels b = numberOfChannels (hd [exA, exB])"
    by (simp add: exA_def exB_def)
  from combine_concatenates [OF _ wfs fmt, of "\<lparr>ctxSampleRate = 24000\<rparr>"]
  obtain out where r: "combineAudioBuffers \<lparr>ctxSampleRate = 24000\<rparr> [exA, exB] = Inr out"
    and n: "numberOfChannels out = numberOfChannels (hd [exA, exB])"
    and l: "blength out = sum_list (map blength [exA, exB])"
    and c: "\<forall>c<numberOfChannels out. channels out ! c = concat (map (\<lambda>b. channels b ! c) [exA, exB])"
    by blast
  have n1: "numberOfChannels out = 1"
    using n by (simp add: exA_def)
  have l1: "blength out = 1500"
    using l by (simp add: exA_def exB_def)
  have c0: "channels out ! 0 = channels exA ! 0 @ channels exB ! 0"
    using c n1 by simp
  have "channels out ! 0 ! 999 = Num (1/2)" "channels out ! 0 ! 1000 = Num (-1/4)"
    by (simp_all add: c0 exA_def exB_def nth_append)
  then show ?thesis
    using wf r n1 l1 c0 by blast
qed

section \<open>Properties of mixAudioBuffers\<close>

lemma gatherChannelData_ok:
  "wf_buffer speech \<Longrightarrow> wf_buffer music \<Longrightarrow>
   list_all (\<lambda>i. i < numberOfChannels speech \<and> i < numberOfChannels music) is \<Longrightarrow>
   gatherChannelData speech music is (sd, md) =
     Inr (sd @ map (\<lambda>i. channels speech ! i) is, md @ map (\<lambda>i. channels music ! i) is)"
  by (induction "is" arbitrary: sd md) (simp_all add: getChannelData_wf)

lemma gatherChannelData_fails:
  "wf_buffer speech \<Longrightarrow> list_all (\<lambda>i. i < numberOfChannels speech) is \<Longrightarrow>
   \<not> list_all (\<lambda>i. i < numberOfChannels music) is \<Longrightarrow>
   gatherChannelData speech music is (sd, md) = Inl IndexSizeError"
proof (induction "is" arbitrary: sd md)
  case Nil
  then show ?case by simp
next
  case (Cons i "is")
  have s: "getChannelData speech i = Inr (channels speech ! i)"
    using Cons.prems(1,2) by (simp add: getChannelData_wf)
  show ?case
  proof (cases "i < numberOfChannels music \<and> i < length (channels music)")
    case True
    then have "\<not> list_all (\<lambda>i. i < numberOfChannels music) is"
      using Cons.prems(3) by simp
    moreover have "getChannelData music i = Inr (channels music ! i)"
      using True by (simp add: getChannelData_def)
    ultimately show ?thesis
      using Cons.IH Cons.prems(1,2) by (simp add: s)
  next
    case False
    then have "getChannelData music i = Inl IndexSizeError"
      by (simp add: getChannelData_def)
    then show ?thesis
      by (simp add: s)
  qed
qed

lemma length_mixChannel [simp]:
  "length (mixChannel sp mu ml sv mv is out) = length out"
  by (induction "is" arbitrary: out) simp_all

lemma nth_mixChannel:
  "k < length out \<Longrightarrow>
   mixChannel sp mu ml sv mv is out ! k =
     (if k \<in> set is then mixedSample sp mu ml sv mv k else out ! k)"
  by (induction "is" arbitrary: out) (auto simp: nth_list_update)

lemma mixChannel_all:
  "length out = n \<Longrightarrow>
   mixChannel sp mu ml sv mv [0..<n] out = map (mixedSample sp mu ml sv mv) [0..<n]"
  by (rule nth_equalityI) (simp_all add: nth_mixChannel)

lemma mixChannels_result:
  "numberOfChannels mixed = n \<Longrightarrow> length (channels mixed) = n \<Longrightarrow>
   list_all (\<lambda>ch. length ch = longer) (channels mixed) \<Longrightarrow>
   list_all (\<lambda>c. c < n) cs \<Longrightarrow>
   mixChannels speechData musicData ml sv mv longer cs mixed =
     Inr (mixed\<lparr>channels :=
            map (\<lambda>c. if c \<in> set cs
                     then map (mixedSample (speechData ! c) (musicData ! c) ml sv mv) [0..<longer]
                     else channels mixed ! c) [0..<n]\<rparr>)"
proof (induction cs arbitrary: mixed)
  case Nil
  have "map ((!) (channels mixed)) [0..<n] = channels mixed"
    using Nil.prems(2) map_nth [of "channels mixed"] by simp
  then show ?case by simp
next
  case (Cons c cs)
  let ?out = "channels mixed ! c"
  let ?new = "map (mixedSample (speechData ! c) (musicData ! c) ml sv mv) [0..<longer]"
  let ?mixed' = "mixed\<lparr>channels := (channels mixed)[c := ?new]\<rparr>"
  have c: "c < n" and cs: "list_all (\<lambda>c. c < n) cs"
    using Cons.prems(4) by simp_all
  have g: "getChannelData mixed c = Inr ?out"
    using c Cons.prems(1,2) by (simp add: getChannelData_def)
  have lo: "length ?out = longer"
    using c Cons.prems(2,3) by (simp add: list_all_length)
  have m: "mixChannel (speechData ! c) (musicData ! c) ml sv mv [0..<longer] ?out = ?new"
    using lo by (rule mixChannel_all)
  have lens: "list_all (\<lambda>ch. length ch = longer) (channels ?mixed')"
    using Cons.prems(2,3) c by (auto simp: list_all_length nth_list_update)
  have ih: "mixChannels speechData musicData ml sv mv longer cs ?mixed' =
     Inr (?mixed'\<lparr>channels :=
            map (\<lambda>k. if k \<in> set cs
                     then map (mixedSample (speechData ! k) (musicData ! k) ml sv mv) [0..<longer]
                     else channels ?mixed' ! k) [0..<n]\<rparr>)"
    using lens cs by (intro Cons.IH) (simp_all add: Cons.prems(1,2))
  have eq: "map (\<lambda>k. if k \<in> set cs
                     then map (mixedSample (speechData ! k) (musicData ! k) ml sv mv) [0..<longer]
                     else channels ?mixed' ! k) [0..<n]
          = map (\<lambda>k. if k \<in> set (c # cs)
                     then map (mixedSample (speechData ! k) (musicData ! k) ml sv mv) [0..<longer]
                     else channels mixed ! k) [0..<n]"
    using Cons.prems(2) by (auto simp: nth_list_update)
  show ?case
    by (simp only: mixChannels.simps g m sum.case ih eq) simp
qed

lemma mix_result:
  assumes wfs: "wf_buffer speech" and wfm: "wf_buffer music"
    and le: "numberOfChannels speech \<le> numberOfChannels music"
  shows "mixAudioBuffers context speech music sv mv =
     Inr \<lparr>sampleRate = sampleRate speech, numberOfChannels = numberOfChannels speech,
          blength = max (blength speech) (blength music),
          channels = map (\<lambda>c. map (mixedSample (channels speech ! c) (channels music ! c)
                                      (blength music) sv mv)
                                  [0..<max (blength speech) (blength music)])
                         [0..<numberOfChannels speech]\<rparr>"
proof -
  let ?n = "numberOfChannels speech"
  let ?longer = "max (blength speech) (blength music)"
  let ?fresh = "createBuffer context ?n ?longer (sampleRate speech)"
  let ?sd = "map (\<lambda>i. channels speech ! i) [0..<?n]"
  let ?md = "map (\<lambda>i. channels music ! i) [0..<?n]"
  have "list_all (\<lambda>i. i < ?n \<and> i < numberOfChannels music) [0..<?n]"
    using le by (simp add: list_all_iff)
  then have g: "gatherChannelData speech music [0..<?n] ([], []) = Inr (?sd, ?md)"
    using gatherChannelData_ok [OF wfs wfm, of "[0..<?n]" "[]" "[]"] by simp
  have "mixChannels ?sd ?md (blength music) sv mv ?longer [0..<?n] ?fresh =
     Inr (?fresh\<lparr>channels :=
            map (\<lambda>c. if c \<in> set [0..<?n]
                     then map (mixedSample (?sd ! c) (?md ! c) (blength music) sv mv) [0..<?longer]
                     else channels ?fresh ! c) [0..<?n]\<rparr>)"
    by (rule mixChannels_result) (simp_all add: createBuffer_def list_all_length)
  also have "map (\<lambda>c. if c \<in> set [0..<?n]
                     then map (mixedSample (?sd ! c) (?md ! c) (blength music) sv mv) [0..<?longer]
                     else channels ?fresh ! c) [0..<?n]
     = map (\<lambda>c. map (mixedSample (channels speech ! c) (channels music ! c)
                                      (blength music) sv mv) [0..<?longer]) [0..<?n]"
    by simp
  finally have m: "mixChannels ?sd ?md (blength music) sv mv ?longer [0..<?n] ?fresh =
     Inr \<lparr>sampleRate = sampleRate speech, numberOfChannels = ?n, blength = ?longer,
          channels = map (\<lambda>c. map (mixedSample (channels speech ! c) (channels music ! c)
                                      (blength music) sv mv) [0..<?longer]) [0..<?n]\<rparr>"
    by (simp add: createBuffer_def)
  show ?thesis
    unfolding mixAudioBuffers_def Let_def by (simp only: g m sum.case prod.case)
qed

lemma mix_fewer_music_channels:
  assumes wfs: "wf_buffer speech"
    and less: "numberOfChannels music < numberOfChannels speech"
  shows "mixAudioBuffers context speech music sv mv = Inl IndexSizeError"
proof -
  let ?n = "numberOfChannels speech"
  have a: "list_all (\<lambda>i. i < ?n) [0..<?n]"
    by (simp add: list_all_iff)
  have b: "\<not> list_all (\<lambda>i. i < numberOfChannels music) [0..<?n]"
    using less by (auto simp: list_all_iff)
  have g: "gatherChannelData speech music [0..<?n] ([], []) = Inl IndexSizeError"
    by (rule gatherChannelData_fails [OF wfs a b])
  show ?thesis
    unfolding mixAudioBuffers_def Let_def by (simp only: g sum.case)
qed



lemma clamp_finite:
  "math_max (Num (- 1)) (math_min (Num 1) (Num x)) = Num (max (- 1) (min 1 x))"
  by (simp add: math_max_def math_min_def max_def min_def)

lemma clamp_infinite:
  "math_max (Num (- 1)) (math_min (Num 1) PosInfinity) = Num 1"
  "math_max (Num (- 1)) (math_min (Num 1) NegInfinity) = Num (- 1)"
  "math_max (Num (- 1)) (math_min (Num 1) NaN) = NaN"
  by (simp_all add: math_max_def math_min_def)

lemma toFloat32_ones: "toFloat32 1 = Num 1" "toFloat32 (- 1) = Num (- 1)" "toFloat32 0 = Num 0"
  by (simp_all add: float_eval)

lemma stored_clamp:
  fixes t :: number
  defines "v \<equiv> float32Element (math_max (Num (- 1)) (math_min (Num 1) t))"
  shows "(num_less (Num 1) t \<longrightarrow> v = Num 1) \<and> (num_less t (Num (- 1)) \<longrightarrow> v = Num (- 1))
     \<and> (t \<noteq> NaN \<longrightarrow> (\<exists>y. v = Num y \<and> - 1 \<le> y \<and> y \<le> 1))"
proof (cases t)
  case (Num x)
  let ?c = "max (- 1) (min 1 x)"
  have v: "v = toFloat32 ?c"
    by (simp add: v_def Num clamp_finite)
  have "\<bar>?c\<bar> \<le> 1"
    by (simp add: abs_le_iff)
  then obtain r where r: "toFloat32 ?c = Num r" "\<bar>r\<bar> \<le> 1"
    using toFloat32_unit by blast
  have hi: "v = Num 1" if "1 < x"
    using that by (simp add: v toFloat32_ones)
  have lo: "v = Num (- 1)" if "x < - 1"
    using that by (simp add: v toFloat32_ones)
  have "\<exists>y. v = Num y \<and> - 1 \<le> y \<and> y \<le> 1"
    using r by (auto simp: v abs_le_iff)
  then show ?thesis
    using hi lo by (simp add: Num)
next
  case PosInfinity
  then show ?thesis
    by (simp add: v_def clamp_infinite toFloat32_ones)
next
  case NegInfinity
  then show ?thesis
    by (simp add: v_def clamp_infinite toFloat32_ones)
next
  case NaN
  then show ?thesis
    by (simp add: v_def clamp_infinite)
qed

lemma mixedSample_formula:
  "length sp = ls \<Longrightarrow> length mu = lm \<Longrightarrow> 0 < lm \<Longrightarrow>
   mixedSample sp mu lm sg mg i =
     float32Element (math_max (Num (- 1)) (math_min (Num 1)
       (num_add (if i < ls then num_add (Num 0) (num_mul (sp ! i) sg) else Num 0)
                (num_mul (mu ! (i mod lm)) mg))))"
  by (simp add: mixedSample_def Let_def)

text \<open>
  C5, as stated, fails: the sum is not stored as it is but rounded to binary32. Take the
  binary32 values nearest to 0.1 and 0.2 as first speech sample and as one-frame music loop,
  with both gains 1. Their sum, which is exact in binary64 and lies inside \<open>[-1, 1]\<close>, is
  40265319/134217728; the sample of the mix is 5033165/16777216.
\<close>

theorem mix_rounds_to_float32_counterexample:
  "wf_buffer roundedSpeech \<and> wf_buffer roundedMusic
   \<and> sampleRate roundedMusic = sampleRate roundedSpeech
   \<and> numberOfChannels roundedMusic = numberOfChannels roundedSpeech
   \<and> channels roundedSpeech ! 0 ! 0 = Num (13421773/134217728)
   \<and> channels roundedMusic ! 0 ! 0 = Num (13421773/67108864)
   \<and> max (- 1) (min 1 (13421773/134217728 * 1 + 13421773/67108864 * 1)) = (40265319/134217728 :: real)
   \<and> num_add (num_mul (Num (13421773/134217728)) (Num 1)) (num_mul (Num (13421773/67108864)) (Num 1))
        = Num (40265319/134217728)
   \<and> mixAudioBuffers \<lparr>ctxSampleRate = 24000\<rparr> roundedSpeech roundedMusic (Num 1) (Num 1) =
        Inr \<lparr>sampleRate = 24000, numberOfChannels = 1, blength = 2,
             channels = [[Num (5033165/16777216), Num (11744051/16777216)]]\<rparr>
   \<and> Num (5033165/16777216) \<noteq> Num (40265319/134217728)"
proof -
  have wf: "wf_buffer roundedSpeech" "wf_buffer roundedMusic"
    by (simp_all add: wf_buffer_def roundedSpeech_def roundedMusic_def)
  have le: "numberOfChannels roundedSpeech \<le> numberOfChannels roundedMusic"
    by (simp add: roundedSpeech_def roundedMusic_def)
  have u: "[0..<2] = [0, 1]"
    by (simp add: upt_rec)
  have e: "toFloat64 (13421773/134217728) = Num (13421773/134217728)"
    "toFloat64 (13421773/67108864) = Num (13421773/67108864)"
    "toFloat64 (1/2) = Num (1/2)"
    "toFloat64 (40265319/134217728) = Num (40265319/134217728)"
    "toFloat64 (46976205/67108864) = Num (46976205/67108864)"
    by (simp_all add: float_eval)
  have d: "toFloat32 (40265319/134217728) = Num (5033165/16777216)"
    "toFloat32 (46976205/67108864) = Num (11744051/16777216)"
    by (simp_all add: float_eval)
  have m: "mixAudioBuffers \<lparr>ctxSampleRate = 24000\<rparr> roundedSpeech roundedMusic (Num 1) (Num 1) =
        Inr \<lparr>sampleRate = 24000, numberOfChannels = 1, blength = 2,
             channels = [[Num (5033165/16777216), Num (11744051/16777216)]]\<rparr>"
    unfolding mix_result [OF wf le]
    by (simp add: roundedSpeech_def roundedMusic_def u mixedSample_def e d clamp_finite)
  show ?thesis
    using wf m by (simp add: e) (simp add: roundedSpeech_def roundedMusic_def)
qed


text \<open>
  C5, amended. For well-formed speech and music buffers of equal sample rate and channel
  count, \<open>mixAudioBuffers\<close> returns a buffer of length \<open>max speech.length music.length\<close>.
  Sample \<open>i\<close> of every channel is computed in the arithmetic of the language, that is with
  binary64 products and sums: \<open>(0 + speech[i] * speechGain) + music[i mod music.length] *
  musicGain\<close>, the first summand being 0 beyond the end of the speech; this sum is clamped
  to \<open>[-1, 1]\<close> and the result is rounded to binary32 when it is stored. A sum above 1 gives
  exactly 1, a sum below -1 exactly -1, and unless the sum is NaN the sample lies in
  \<open>[-1, 1]\<close>.
\<close>

theorem mix_loops_and_clamps:
  assumes wfs: "wf_buffer speech" and wfm: "wf_buffer music"
    and rate: "sampleRate music = sampleRate speech"
    and nch: "numberOfChannels music = numberOfChannels speech"
  shows "\<exists>out. mixAudioBuffers context speech music speechGain musicGain = Inr out
     \<and> sampleRate out = sampleRate speech
     \<and> numberOfChannels out = numberOfChannels speech
     \<and> blength out = max (blength speech) (blength music)
     \<and> wf_buffer out
     \<and> (\<forall>c<numberOfChannels out. \<forall>i<blength out.
          (let s = (if i < blength speech
                    then num_add (Num 0) (num_mul (channels speech ! c ! i) speechGain)
                    else Num 0);
               t = num_add s (num_mul (channels music ! c ! (i mod blength music)) musicGain)
           in channels out ! c ! i = float32Element (math_max (Num (- 1)) (math_min (Num 1) t))
              \<and> (num_less (Num 1) t \<longrightarrow> channels out ! c ! i = Num 1)
              \<and> (num_less t (Num (- 1)) \<longrightarrow> channels out ! c ! i = Num (- 1))
              \<and> (t \<noteq> NaN \<longrightarrow> (\<exists>y. channels out ! c ! i = Num y \<and> - 1 \<le> y \<and> y \<le> 1))))"
proof -
  let ?n = "numberOfChannels speech"
  let ?longer = "max (blength speech) (blength music)"
  let ?out = "\<lparr>sampleRate = sampleRate speech, numberOfChannels = ?n, blength = ?longer,
          channels = map (\<lambda>c. map (mixedSample (channels speech ! c) (channels music ! c)
                                      (blength music) speechGain musicGain) [0..<?longer])
                         [0..<?n]\<rparr>"
  have r: "mixAudioBuffers context speech music speechGain musicGain = Inr ?out"
    using mix_result [OF wfs wfm] nch by simp
  have pos: "0 < ?n" "0 < blength speech" "0 < blength music"
    using wfs wfm by (simp_all add: wf_buffer_def)
  have wfo: "wf_buffer ?out"
    using pos by (simp add: wf_buffer_def list_all_iff)
  have smp: "let s = (if i < blength speech
                    then num_add (Num 0) (num_mul (channels speech ! c ! i) speechGain)
                    else Num 0);
               t = num_add s (num_mul (channels music ! c ! (i mod blength music)) musicGain)
           in channels ?out ! c ! i = float32Element (math_max (Num (- 1)) (math_min (Num 1) t))
              \<and> (num_less (Num 1) t \<longrightarrow> channels ?out ! c ! i = Num 1)
              \<and> (num_less t (Num (- 1)) \<longrightarrow> channels ?out ! c ! i = Num (- 1))
              \<and> (t \<noteq> NaN \<longrightarrow> (\<exists>y. channels ?out ! c ! i = Num y \<and> - 1 \<le> y \<and> y \<le> 1))"
    if c: "c < ?n" and i: "i < ?longer" for c i
  proof -
    define t where "t = num_add (if i < blength speech
                    then num_add (Num 0) (num_mul (channels speech ! c ! i) speechGain)
                    else Num 0) (num_mul (channels music ! c ! (i mod blength music)) musicGain)"
    have ls: "length (channels speech ! c) = blength speech"
      using wfs c by (rule wf_channel_length)
    have lm: "length (channels music ! c) = blength music"
      using wfm c nch by (simp add: wf_channel_length)
    have "channels ?out ! c ! i =
          mixedSample (channels speech ! c) (channels music ! c) (blength music)
            speechGain musicGain i"
      using c i by simp
    also have "\<dots> = float32Element (math_max (Num (- 1)) (math_min (Num 1) t))"
      unfolding t_def using ls lm pos(3) by (rule mixedSample_formula)
    finally have v: "channels ?out ! c ! i
                       = float32Element (math_max (Num (- 1)) (math_min (Num 1) t))" .
    show ?thesis
      unfolding Let_def t_def [symmetric] v using stored_clamp [of t] by simp
  qed
  show ?thesis
    using wfo smp by (intro exI [of _ ?out]) (simp add: r)
qed

theorem mix_loops_and_clamps_witness:
  "wf_buffer exSpeech \<and> wf_buffer exMusic \<and>
   (\<exists>out. mixAudioBuffers \<lparr>ctxSampleRate = 24000\<rparr> exSpeech exMusic (Num 1) (Num 1) = Inr out
      \<and> blength out = 4
      \<and> channels out ! 0 ! 0 = Num 1 \<and> channels out ! 0 ! 1 = Num (- 1/4)
      \<and> channels out ! 0 ! 2 = Num (1/4) \<and> channels out ! 0 ! 3 = Num (- 3/4))"
proof -
  have wf: "wf_buffer exSpeech" "wf_buffer exMusic"
    by (simp_all add: wf_buffer_def exSpeech_def exMusic_def)
  have fmt: "sampleRate exMusic = sampleRate exSpeech"
    "numberOfChannels exMusic = numberOfChannels exSpeech"
    by (simp_all add: exSpeech_def exMusic_def)
  from mix_loops_and_clamps [OF wf fmt, of "\<lparr>ctxSampleRate = 24000\<rparr>" "Num 1" "Num 1"]
  obtain out where r: "mixAudioBuffers \<lparr>ctxSampleRate = 24000\<rparr> exSpeech exMusic (Num 1) (Num 1) = Inr out"
    and n: "numberOfChannels out = numberOfChannels exSpeech"
    and l: "blength out = max (blength exSpeech) (blength exMusic)"
    and s: "\<forall>c<numberOfChannels out. \<forall>i<blength out.
          (let s = (if i < blength exSpeech
                    then num_add (Num 0) (num_mul (channels exSpeech ! c ! i) (Num 1))
                    else Num 0);
               t = num_add s (num_mul (channels exMusic ! c ! (i mod blength exMusic)) (Num 1))
           in channels out ! c ! i = float32Element (math_max (Num (- 1)) (math_min (Num 1) t))
              \<and> (num_less (Num 1) t \<longrightarrow> channels out ! c ! i = Num 1)
              \<and> (num_less t (Num (- 1)) \<longrightarrow> channels out ! c ! i = Num (- 1))
              \<and> (t \<noteq> NaN \<longrightarrow> (\<exists>y. channels out ! c ! i = Num y \<and> - 1 \<le> y \<and> y \<le> 1)))"
    by blast
  have n1: "0 < numberOfChannels out"
    using n by (simp add: exSpeech_def)
  have l4: "blength out = 4"
    using l by (simp add: exSpeech_def exMusic_def)
  have e: "toFloat64 (1/2) = Num (1/2)" "toFloat64 (3/4) = Num (3/4)"
    "toFloat64 (- (1/2)) = Num (- (1/2))" "toFloat64 (1/4) = Num (1/4)"
    "toFloat64 (- 1) = Num (- 1)" "toFloat64 (5/4) = Num (5/4)"
    "toFloat64 (- (1/4)) = Num (- (1/4))" "toFloat64 (- (3/4)) = Num (- (3/4))"
    "toFloat32 1 = Num 1" "toFloat32 (- (1/4)) = Num (- (1/4))"
    "toFloat32 (1/4) = Num (1/4)" "toFloat32 (- (3/4)) = Num (- (3/4))"
    by (simp_all add: float_eval)
  have m: "(2::nat) mod Suc (Suc 0) = 0" "(3::nat) mod Suc (Suc 0) = 1"
    by presburger+
  have "channels out ! 0 ! 0 = Num 1"
    using s [rule_format, OF n1, of 0] l4 by (simp add: exSpeech_def exMusic_def e clamp_finite Let_def)
  moreover have "channels out ! 0 ! 1 = Num (- 1/4)"
    using s [rule_format, OF n1, of 1] l4 by (simp add: exSpeech_def exMusic_def e clamp_finite Let_def)
  moreover have "channels out ! 0 ! 2 = Num (1/4)"
    using s [rule_format, OF n1, of 2] l4 by (simp add: exSpeech_def exMusic_def e clamp_finite m Let_def)
  moreover have "channels out ! 0 ! 3 = Num (- 3/4)"
    using s [rule_format, OF n1, of 3] l4 by (simp add: exSpeech_def exMusic_def e clamp_finite m Let_def)
  ultimately show ?thesis
    using wf r l4 by blast
qed


section \<open>Properties of the exporters' sample re-encoding\<close>

lemma toInt16_in_range:
  "- 32768 \<le> js_trunc y \<Longrightarrow> js_trunc y \<le> 32767 \<Longrightarrow> toInt16 (Num y) = js_trunc y"
  by (simp add: sint_sbintrunc' signed_take_bit_int_eq_self)

lemma js_trunc_bounds:
  "- real_of_int a \<le> y \<Longrightarrow> y \<le> real_of_int b \<Longrightarrow>
   - a \<le> js_trunc y \<and> js_trunc y \<le> b"
proof -
  assume lo: "- real_of_int a \<le> y" and hi: "y \<le> real_of_int b"
  have "- a \<le> \<lfloor>y\<rfloor>" "- a \<le> \<lceil>y\<rceil>"
    using lo by (simp_all add: le_floor_iff le_ceiling_iff)
  moreover have "\<lfloor>y\<rfloor> \<le> b" "\<lceil>y\<rceil> \<le> b"
    using hi by (simp_all add: floor_le_iff ceiling_le_iff)
  ultimately show ?thesis
    by (simp add: js_trunc_def)
qed

lemma isFloat32_clamp: "isFloat32 x \<Longrightarrow> isFloat32 (max (- 1) (min 1 x))"
  by (auto simp: isFloat32_def max_def min_def toFloat32_ones)

lemma scaled_clamped:
  assumes f: "isFloat32 x" and K: "\<bar>K\<bar> \<le> 32768"
  shows "num_mul (Num (max (- 1) (min 1 x))) (Num (real_of_int K))
           = Num (max (- 1) (min 1 x) * real_of_int K)"
proof -
  have "\<bar>max (- 1) (min 1 x)\<bar> \<le> 1"
    by (simp add: abs_le_iff)
  with isFloat32_clamp [OF f] show ?thesis
    using K by (simp add: scaled_sample_exact)
qed

lemma wavSample_js_trunc:
  assumes f: "isFloat32 x"
  shows "wavSample (Num x)
           = js_trunc (let s = max (- 1) (min 1 x) in if s < 0 then s * 32768 else s * 32767)"
    and wavSample_range: "- 32768 \<le> wavSample (Num x) \<and> wavSample (Num x) \<le> 32767"
proof -
  define s where "s = max (- 1) (min 1 x)"
  define y where "y = (if s < 0 then s * 32768 else s * 32767)"
  have s: "- 1 \<le> s" "s \<le> 1"
    by (simp_all add: s_def)
  have "- real_of_int 32768 \<le> y" "y \<le> real_of_int 32767"
    using s by (auto simp: y_def)
  then have b: "- 32768 \<le> js_trunc y \<and> js_trunc y \<le> 32767"
    using js_trunc_bounds [of 32768 y 32767] by simp
  have m: "num_mul (Num s) (Num 32768) = Num (s * 32768)"
    "num_mul (Num s) (Num 32767) = Num (s * 32767)"
    using scaled_clamped [OF f, of 32768] scaled_clamped [OF f, of 32767]
    by (simp_all add: s_def del: num_mul.simps)
  have "wavSample (Num x) =
          toInt16 (if num_less (Num s) (Num 0) then num_mul (Num s) (Num 32768)
                   else num_mul (Num s) (Num 32767))"
    by (simp only: wavSample_def Let_def clamp_finite s_def)
  then have w: "wavSample (Num x) = toInt16 (Num y)"
    by (simp add: m y_def del: num_mul.simps toInt16.simps)
  have "toInt16 (Num y) = js_trunc y"
    using b by (intro toInt16_in_range) simp_all
  then show "wavSample (Num x)
           = js_trunc (let s = max (- 1) (min 1 x) in if s < 0 then s * 32768 else s * 32767)"
    using w by (simp only: Let_def s_def y_def)
  then show "- 32768 \<le> wavSample (Num x) \<and> wavSample (Num x) \<le> 32767"
    using b by (simp only: Let_def s_def y_def)
qed

lemma mp3Sample_js_trunc:
  assumes f: "isFloat32 x"
  shows "mp3Sample (Num x) = js_trunc (max (- 1) (min 1 x) * 32767)"
    and mp3Sample_range: "- 32767 \<le> mp3Sample (Num x) \<and> mp3Sample (Num x) \<le> 32767"
proof -
  define y where "y = max (- 1) (min 1 x) * 32767"
  have "- real_of_int 32767 \<le> y" "y \<le> real_of_int 32767"
    by (auto simp: y_def max_def min_def)
  then have b: "- 32767 \<le> js_trunc y \<and> js_trunc y \<le> 32767"
    using js_trunc_bounds [of 32767 y 32767] by simp
  have "num_mul (Num (max (- 1) (min 1 x))) (Num 32767) = Num y"
    using scaled_clamped [OF f, of 32767] by (simp add: y_def del: num_mul.simps)
  then have w: "mp3Sample (Num x) = toInt16 (Num y)"
    by (simp only: mp3Sample_def clamp_finite)
  have "toInt16 (Num y) = js_trunc y"
    using b by (intro toInt16_in_range) simp_all
  then show "mp3Sample (Num x) = js_trunc (max (- 1) (min 1 x) * 32767)"
    using w by (simp only: y_def)
  then show "- 32767 \<le> mp3Sample (Num x) \<and> mp3Sample (Num x) \<le> 32767"
    using b by (simp only: y_def)
qed

lemma isFloat32_ones: "isFloat32 1" "isFloat32 (- 1)" "isFloat32 0"
  by (simp_all add: isFloat32_def toFloat32_ones)

lemma sample_values:
  "wavSample (Num 1) = 32767" "wavSample (Num (- 1)) = - 32768" "wavSample (Num 0) = 0"
  "mp3Sample (Num 1) = 32767" "mp3Sample (Num (- 1)) = - 32767" "mp3Sample (Num 0) = 0"
  by (simp_all add: wavSample_js_trunc mp3Sample_js_trunc isFloat32_ones js_trunc_def)

lemma negative_samples:
  assumes f: "isFloat32 x" and neg: "x < 0"
  shows "wavSample (Num x) \<le> mp3Sample (Num x) \<and> mp3Sample (Num x) \<le> wavSample (Num x) + 1"
proof -
  define s where "s = max (- 1) (min 1 x)"
  have s: "- 1 \<le> s" "s < 0"
    using neg by (simp_all add: s_def)
  have w: "wavSample (Num x) = \<lceil>s * 32768\<rceil>"
    using s by (simp add: wavSample_js_trunc [OF f] s_def [symmetric] js_trunc_def)
  have m: "mp3Sample (Num x) = \<lceil>s * 32767\<rceil>"
    using s by (simp add: mp3Sample_js_trunc [OF f] s_def [symmetric] js_trunc_def)
  have "s * 32768 \<le> s * 32767" "s * 32767 \<le> s * 32768 + 1"
    using s by simp_all
  then have "\<lceil>s * 32768\<rceil> \<le> \<lceil>s * 32767\<rceil>" "\<lceil>s * 32767\<rceil> \<le> \<lceil>s * 32768 + 1\<rceil>"
    by (simp_all only: ceiling_mono)
  then show ?thesis
    by (simp add: w m)
qed

lemma nonfinite_samples:
  "wavSample PosInfinity = 32767" "wavSample NegInfinity = - 32768" "wavSample NaN = 0"
  "mp3Sample PosInfinity = 32767" "mp3Sample NegInfinity = - 32767" "mp3Sample NaN = 0"
proof -
  have w: "wavSample PosInfinity = wavSample (Num 1)" "wavSample NegInfinity = wavSample (Num (- 1))"
    by (simp_all add: wavSample_def clamp_infinite clamp_finite)
  have m: "mp3Sample PosInfinity = mp3Sample (Num 1)" "mp3Sample NegInfinity = mp3Sample (Num (- 1))"
    by (simp_all add: mp3Sample_def clamp_infinite clamp_finite)
  show "wavSample PosInfinity = 32767" "wavSample NegInfinity = - 32768"
    "mp3Sample PosInfinity = 32767" "mp3Sample NegInfinity = - 32767"
    by (simp_all only: w m sample_values)
  show "wavSample NaN = 0" "mp3Sample NaN = 0"
    by (simp_all add: wavSample_def mp3Sample_def clamp_infinite)
qed

text \<open>
  C6, as stated, fails: the conversion loop of \<open>exportMP3\<close> scales by 32767 on both sides
  of zero, so the sample -1.0 becomes -32767 there and -32768 in \<open>exportWAV\<close>.
\<close>

theorem mp3_scaling_counterexample:
  "mp3Sample (Num (- 1)) = - 32767 \<and> wavSample (Num (- 1)) = - 32768"
  by (simp add: sample_values)

text \<open>
  C6, amended. \<open>exportWAV\<close> re-encodes every binary32 sample, clamped to \<open>[-1, 1]\<close>, with the
  asymmetric scaling (32768 below zero, 32767 otherwise) truncated towards zero, which never
  leaves the int16 range: 1.0 gives 32767, -1.0 gives -32768, 0.0 gives 0. The conversion of
  \<open>exportMP3\<close>, applied to channel 0, scales the clamped sample by 32767 whatever its sign:
  1.0 gives 32767, -1.0 gives -32767, 0.0 gives 0. The two encodings agree on every sample
  that is not negative; on a negative sample the MP3 value is the WAV value or that value
  plus one, and from -1.0 downwards they are -32767 and -32768. An infinite sample is
  encoded like 1.0 or -1.0, and NaN as 0, by both.
\<close>

theorem export_sample_scalings:
  "exportWAV_samples audioBuffer = concat (map (map wavSample) (channels audioBuffer))
   \<and> (wf_buffer audioBuffer \<longrightarrow>
        exportMP3_samples audioBuffer = Inr (map mp3Sample (channels audioBuffer ! 0)))
   \<and> (isFloat32 x \<longrightarrow>
        wavSample (Num x)
          = js_trunc (let s = max (- 1) (min 1 x) in if s < 0 then s * 32768 else s * 32767)
        \<and> - 32768 \<le> wavSample (Num x) \<and> wavSample (Num x) \<le> 32767
        \<and> mp3Sample (Num x) = js_trunc (max (- 1) (min 1 x) * 32767)
        \<and> - 32767 \<le> mp3Sample (Num x) \<and> mp3Sample (Num x) \<le> 32767
        \<and> (0 \<le> x \<longrightarrow> mp3Sample (Num x) = wavSample (Num x))
        \<and> (x < 0 \<longrightarrow> wavSample (Num x) \<le> mp3Sample (Num x)
                      \<and> mp3Sample (Num x) \<le> wavSample (Num x) + 1)
        \<and> (x \<le> - 1 \<longrightarrow> wavSample (Num x) = - 32768 \<and> mp3Sample (Num x) = - 32767))
   \<and> wavSample (Num 1) = 32767 \<and> wavSample (Num (- 1)) = - 32768 \<and> wavSample (Num 0) = 0
   \<and> mp3Sample (Num 1) = 32767 \<and> mp3Sample (Num (- 1)) = - 32767 \<and> mp3Sample (Num 0) = 0
   \<and> wavSample PosInfinity = 32767 \<and> wavSample NegInfinity = - 32768 \<and> wavSample NaN = 0
   \<and> mp3Sample PosInfinity = 32767 \<and> mp3Sample NegInfinity = - 32767 \<and> mp3Sample NaN = 0"
proof -
  have wav: "exportWAV_samples audioBuffer = concat (map (map wavSample) (channels audioBuffer))"
    by (simp add: exportWAV_samples_def floatTo16BitPCM_def cong: map_cong)
  have mp3: "exportMP3_samples audioBuffer = Inr (map mp3Sample (channels audioBuffer ! 0))"
    if "wf_buffer audioBuffer"
    using that by (simp add: exportMP3_samples_def getChannelData_wf wf_buffer_def)
  have agree: "mp3Sample (Num x) = wavSample (Num x)" if "0 \<le> x"
  proof -
    have "\<not> num_less (Num (max (- 1) (min 1 x))) (Num 0)"
      using that by simp
    then show ?thesis
      by (simp only: wavSample_def mp3Sample_def Let_def clamp_finite if_False)
  qed
  have low: "wavSample (Num x) = - 32768 \<and> mp3Sample (Num x) = - 32767" if "x \<le> - 1"
  proof -
    have "max (- 1) (min 1 x) = - 1"
      using that by simp
    then have "wavSample (Num x) = wavSample (Num (- 1))" "mp3Sample (Num x) = mp3Sample (Num (- 1))"
      by (simp_all add: wavSample_def mp3Sample_def clamp_finite)
    then show ?thesis
      by (simp only: sample_values)
  qed
  show ?thesis
    using wav mp3 agree low wavSample_js_trunc [of x] wavSample_range [of x]
      mp3Sample_js_trunc [of x] mp3Sample_range [of x] negative_samples [of x]
      sample_values nonfinite_samples
    by blast
qed

theorem export_sample_scalings_witness:
  "wf_buffer exMusic \<and> isFloat32 (3/4) \<and> isFloat32 (- 1/2)
   \<and> exportMP3_samples exMusic = Inr [24575, - 32767]
   \<and> exportWAV_samples exMusic = [24575, - 32768]
   \<and> mp3Sample (Num (3/4)) = wavSample (Num (3/4))
   \<and> wavSample (Num (- 1/2)) = - 16384 \<and> mp3Sample (Num (- 1/2)) = - 16383"
proof -
  have wf: "wf_buffer exMusic"
    by (simp add: wf_buffer_def exMusic_def)
  have f: "isFloat32 (3/4)" "isFloat32 (- 1/2)"
    by (simp_all add: isFloat32_def float_eval)
  note t = export_sample_scalings [of exMusic "3/4"]
  note u = export_sample_scalings [of exMusic "- 1"]
  note v = export_sample_scalings [of exMusic "- 1/2"]
  have w34: "wavSample (Num (3/4)) = 24575"
    using t f by (simp add: js_trunc_def)
  have m34: "mp3Sample (Num (3/4)) = 24575"
    using t f by (simp add: js_trunc_def)
  have w12: "wavSample (Num (- 1/2)) = - 16384"
    using v f by (simp add: js_trunc_def)
  have m12: "mp3Sample (Num (- 1/2)) = - 16383"
    using v f by (simp add: js_trunc_def)
  have "exportMP3_samples exMusic = Inr [mp3Sample (Num (3/4)), mp3Sample (Num (- 1))]"
    using t wf by (simp add: exMusic_def)
  moreover have "exportWAV_samples exMusic = [wavSample (Num (3/4)), wavSample (Num (- 1))]"
    using t by (simp add: exMusic_def)
  ultimately show ?thesis
    using wf f w34 m34 w12 m12 u by simp
qed


section \<open>Format mismatches\<close>

lemma mix_unchecked:
  assumes wfs: "wf_buffer speech" and wfm: "wf_buffer music"
    and le: "numberOfChannels speech \<le> numberOfChannels music"
  shows "mixAudioBuffers context speech music speechGain musicGain =
     Inr \<lparr>sampleRate = sampleRate speech, numberOfChannels = numberOfChannels speech,
          blength = max (blength speech) (blength music),
          channels =
            map (\<lambda>c. map (\<lambda>i. float32Element (math_max (Num (- 1)) (math_min (Num 1)
                        (num_add (if i < blength speech
                                  then num_add (Num 0) (num_mul (channels speech ! c ! i) speechGain)
                                  else Num 0)
                           (num_mul (channels music ! c ! (i mod blength music)) musicGain)))))
                      [0..<max (blength speech) (blength music)])
              [0..<numberOfChannels speech]\<rparr>"
proof -
  have pos: "0 < blength music"
    using wfm by (simp add: wf_buffer_def)
  have "mixedSample (channels speech ! c) (channels music ! c) (blength music) speechGain musicGain i
          = float32Element (math_max (Num (- 1)) (math_min (Num 1)
              (num_add (if i < blength speech
                        then num_add (Num 0) (num_mul (channels speech ! c ! i) speechGain)
                        else Num 0)
                 (num_mul (channels music ! c ! (i mod blength music)) musicGain))))"
    if "c < numberOfChannels speech" for c i
  proof -
    have "length (channels speech ! c) = blength speech"
      using wfs that by (rule wf_channel_length)
    moreover have "length (channels music ! c) = blength music"
      using wfm that le by (simp add: wf_channel_length)
    ultimately show ?thesis
      using pos by (rule mixedSample_formula)
  qed
  then show ?thesis
    unfolding mix_result [OF wfs wfm le] by simp
qed

text \<open>
  C4, as stated, fails for the mix: \<open>mixAudioBuffers\<close> compares neither sample rates nor
  channel counts. Mono speech at 24 kHz and a stereo track at 44.1 kHz are mixed into a
  mono buffer at 24 kHz from channel 0 of the track.
\<close>

theorem mix_mismatch_counterexample:
  "sampleRate exStereo \<noteq> sampleRate exSpeech \<and>
   numberOfChannels exStereo \<noteq> numberOfChannels exSpeech \<and>
   mixAudioBuffers \<lparr>ctxSampleRate = 24000\<rparr> exSpeech exStereo (Num 1) (Num 1) =
     Inr \<lparr>sampleRate = 24000, numberOfChannels = 1, blength = 4,
          channels = [[Num 1, Num (- 1/4), Num (1/4), Num (- 3/4)]]\<rparr>"
proof -
  have wf: "wf_buffer exSpeech" "wf_buffer exStereo"
    by (simp_all add: wf_buffer_def exSpeech_def exStereo_def)
  have le: "numberOfChannels exSpeech \<le> numberOfChannels exStereo"
    by (simp add: exSpeech_def exStereo_def)
  have u: "[0..<4] = [0, 1, 2, 3]"
    by (simp add: upt_rec)
  have m: "(2::nat) mod Suc (Suc 0) = 0" "(3::nat) mod Suc (Suc 0) = 1"
    by presburger+
  have e: "toFloat64 (1/2) = Num (1/2)" "toFloat64 (3/4) = Num (3/4)"
    "toFloat64 (- (1/2)) = Num (- (1/2))" "toFloat64 (1/4) = Num (1/4)"
    "toFloat64 (- 1) = Num (- 1)" "toFloat64 (5/4) = Num (5/4)"
    "toFloat64 (- (1/4)) = Num (- (1/4))" "toFloat64 (- (3/4)) = Num (- (3/4))"
    "toFloat32 1 = Num 1" "toFloat32 (- (1/4)) = Num (- (1/4))"
    "toFloat32 (1/4) = Num (1/4)" "toFloat32 (- (3/4)) = Num (- (3/4))"
    by (simp_all add: float_eval)
  show ?thesis
    unfolding mix_result [OF wf le]
    by (simp add: exSpeech_def exStereo_def u mixedSample_def m e clamp_finite)
qed

text \<open>
  C4, amended. \<open>combineAudioBuffers\<close> fails with its format error as soon as one input
  differs from the first in sample rate or channel count. \<open>mixAudioBuffers\<close> makes no format
  check. On well-formed buffers it succeeds whenever the music has at least as many channels
  as the speech, whatever the two sample rates: the result has the sample rate and the
  channel count of the speech and the longer of the two lengths, and sample \<open>i\<close> of its
  channel \<open>c\<close> is mixed from sample \<open>i\<close> of channel \<open>c\<close> of the speech and sample
  \<open>i mod music.length\<close> of channel \<open>c\<close> of the music, frame by frame, so without resampling
  and without the further channels of the music. It fails, in the channel lookup, when the
  music has fewer channels than the speech.
\<close>

theorem combine_rejects_mix_unchecked:
  "(buffers \<noteq> [] \<and>
      (\<exists>b\<in>set buffers. sampleRate b \<noteq> sampleRate (hd buffers)
                       \<or> numberOfChannels b \<noteq> numberOfChannels (hd buffers)) \<longrightarrow>
      combineAudioBuffers context buffers = Inl IncompatibleBuffers)
   \<and> (wf_buffer speech \<and> wf_buffer music
        \<and> numberOfChannels speech \<le> numberOfChannels music \<longrightarrow>
      mixAudioBuffers context speech music speechGain musicGain =
        Inr \<lparr>sampleRate = sampleRate speech, numberOfChannels = numberOfChannels speech,
             blength = max (blength speech) (blength music),
             channels =
               map (\<lambda>c. map (\<lambda>i. float32Element (math_max (Num (- 1)) (math_min (Num 1)
                           (num_add (if i < blength speech
                                     then num_add (Num 0)
                                            (num_mul (channels speech ! c ! i) speechGain)
                                     else Num 0)
                              (num_mul (channels music ! c ! (i mod blength music)) musicGain)))))
                         [0..<max (blength speech) (blength music)])
                 [0..<numberOfChannels speech]\<rparr>)
   \<and> (wf_buffer speech' \<and> numberOfChannels music' < numberOfChannels speech' \<longrightarrow>
      mixAudioBuffers context speech' music' speechGain musicGain = Inl IndexSizeError)"
proof (intro conjI impI)
  assume a: "buffers \<noteq> [] \<and>
      (\<exists>b\<in>set buffers. sampleRate b \<noteq> sampleRate (hd buffers)
                       \<or> numberOfChannels b \<noteq> numberOfChannels (hd buffers))"
  then have ne: "buffers \<noteq> []"
    by simp
  have "\<not> list_all (\<lambda>b. sampleRate b = sampleRate (hd buffers)
                         \<and> numberOfChannels b = numberOfChannels (hd buffers)) buffers"
    using a unfolding list_all_iff by blast
  then have "sumLengths (sampleRate (hd buffers)) (numberOfChannels (hd buffers)) buffers 0
               = Inl IncompatibleBuffers"
    by (rule sumLengths_mismatch)
  then show "combineAudioBuffers context buffers = Inl IncompatibleBuffers"
    by (simp only: combine_nonempty [OF ne] sum.case)
next
  assume "wf_buffer speech \<and> wf_buffer music
        \<and> numberOfChannels speech \<le> numberOfChannels music"
  then show "mixAudioBuffers context speech music speechGain musicGain =
        Inr \<lparr>sampleRate = sampleRate speech, numberOfChannels = numberOfChannels speech,
             blength = max (blength speech) (blength music),
             channels =
               map (\<lambda>c. map (\<lambda>i. float32Element (math_max (Num (- 1)) (math_min (Num 1)
                           (num_add (if i < blength speech
                                     then num_add (Num 0)
                                            (num_mul (channels speech ! c ! i) speechGain)
                                     else Num 0)
                              (num_mul (channels music ! c ! (i mod blength music)) musicGain)))))
                         [0..<max (blength speech) (blength music)])
                 [0..<numberOfChannels speech]\<rparr>"
    by (intro mix_unchecked) simp_all
next
  assume "wf_buffer speech' \<and> numberOfChannels music' < numberOfChannels speech'"
  then show "mixAudioBuffers context speech' music' speechGain musicGain = Inl IndexSizeError"
    by (intro mix_fewer_music_channels) simp_all
qed

theorem combine_rejects_mix_unchecked_witness:
  "combineAudioBuffers \<lparr>ctxSampleRate = 24000\<rparr> [exSpeech, exStereo] = Inl IncompatibleBuffers
   \<and> wf_buffer exSpeech \<and> wf_buffer exStereo
   \<and> mixAudioBuffers \<lparr>ctxSampleRate = 24000\<rparr> exSpeech exStereo (Num 1) (Num (1/2)) =
        Inr \<lparr>sampleRate = 24000, numberOfChannels = 1, blength = 4,
             channels = [[Num (7/8), Num (1/4), Num (- 1/8), Num (- 1/4)]]\<rparr>
   \<and> mixAudioBuffers \<lparr>ctxSampleRate = 24000\<rparr> exStereo exSpeech (Num 1) (Num (1/2))
        = Inl IndexSizeError"
proof -
  have wf: "wf_buffer exSpeech" "wf_buffer exStereo"
    by (simp_all add: wf_buffer_def exSpeech_def exStereo_def)
  note t = combine_rejects_mix_unchecked
    [of "[exSpeech, exStereo]" "\<lparr>ctxSampleRate = 24000\<rparr>" exSpeech exStereo "Num 1" "Num (1/2)"
        exStereo exSpeech]
  have u: "[0..<4] = [0, 1, 2, 3]"
    by (simp add: upt_rec)
  have m: "(2::nat) mod Suc (Suc 0) = 0" "(3::nat) mod Suc (Suc 0) = 1"
    by presburger+
  have e: "toFloat64 (1/2) = Num (1/2)" "toFloat64 (3/4) = Num (3/4)"
    "toFloat64 (- (1/2)) = Num (- (1/2))" "toFloat64 (1/4) = Num (1/4)"
    "toFloat64 (3/8) = Num (3/8)" "toFloat64 (7/8) = Num (7/8)"
    "toFloat64 (- (1/8)) = Num (- (1/8))" "toFloat64 (- (1/4)) = Num (- (1/4))"
    "toFloat32 (7/8) = Num (7/8)" "toFloat32 (- (1/4)) = Num (- (1/4))"
    "toFloat32 (1/4) = Num (1/4)" "toFloat32 (- (1/8)) = Num (- (1/8))"
    by (simp_all add: float_eval)
  have "combineAudioBuffers \<lparr>ctxSampleRate = 24000\<rparr> [exSpeech, exStereo] = Inl IncompatibleBuffers"
    using t by (simp add: exSpeech_def exStereo_def)
  moreover have "mixAudioBuffers \<lparr>ctxSampleRate = 24000\<rparr> exSpeech exStereo (Num 1) (Num (1/2)) =
        Inr \<lparr>sampleRate = 24000, numberOfChannels = 1, blength = 4,
             channels = [[Num (7/8), Num (1/4), Num (- 1/8), Num (- 1/4)]]\<rparr>"
    using t wf by (simp add: exSpeech_def exStereo_def u m e clamp_finite)
  moreover have "mixAudioBuffers \<lparr>ctxSampleRate = 24000\<rparr> exStereo exSpeech (Num 1) (Num (1/2))
        = Inl IndexSizeError"
    using t wf by (simp add: exSpeech_def exStereo_def)
  ultimately show ?thesis
    using wf by simp
qed

section \<open>Properties of callGeminiApiWithRetries\<close>

declare retryLoop.simps [simp del]








lemma backoff_delays_append:
  "backoff_delays d (xs @ ys) = backoff_delays d xs @ backoff_delays (delay_after d xs) ys"
  by (induction d xs rule: backoff_delays.induct) simp_all

lemma delay_after_append:
  "delay_after d (xs @ ys) = delay_after (delay_after d xs) ys"
  by (induction d xs rule: delay_after.induct) simp_all








section \<open>Properties of the segmentation\<close>

lemma trim_Nil_iff: "trim s = [] \<longleftrightarrow> (\<forall>c\<in>set s. isWhiteSpace c)"
proof
  let ?d = "dropWhile isWhiteSpace s"
  assume "trim s = []"
  then have all: "\<forall>c\<in>set ?d. isWhiteSpace c"
    by (simp add: trim_def dropWhile_eq_Nil_conv)
  have "?d = []"
  proof (rule ccontr)
    assume ne: "?d \<noteq> []"
    then have "\<not> isWhiteSpace (hd ?d)"
      by (rule hd_dropWhile)
    moreover have "hd ?d \<in> set ?d"
      using ne by (rule hd_in_set)
    ultimately show False
      using all by blast
  qed
  then show "\<forall>c\<in>set s. isWhiteSpace c"
    by (simp only: dropWhile_eq_Nil_conv)
next
  assume "\<forall>c\<in>set s. isWhiteSpace c"
  then have d: "dropWhile isWhiteSpace s = []"
    by (simp only: dropWhile_eq_Nil_conv)
  show "trim s = []"
    by (simp only: trim_def d rev.simps dropWhile.simps)
qed

lemma length_trim: "length (trim s) \<le> length s"
proof -
  have "length (trim s) \<le> length (dropWhile isWhiteSpace s)"
    using length_dropWhile_le [of isWhiteSpace "rev (dropWhile isWhiteSpace s)"]
    by (simp add: trim_def)
  also have "\<dots> \<le> length s"
    by (rule length_dropWhile_le)
  finally show ?thesis .
qed

lemma takeWhile_white_nth:
  "i < length (takeWhile isWhiteSpace xs) \<Longrightarrow> isWhiteSpace (xs ! i)"
  by (metis nth_mem set_takeWhileD takeWhile_nth)

lemma sentenceMatch_white: "whiteMatcher sentenceMatch"
  unfolding whiteMatcher_def
proof (intro allI impI)
  fix S q n
  assume m: "sentenceMatch S q = Some n"
  let ?run = "takeWhile isWhiteSpace (drop q S)"
  have n: "n = length ?run" and e: "q + length ?run < length S"
    using m by (auto simp: sentenceMatch_def Let_def split: if_splits)
  have "isWhiteSpace (S ! i)" if "q \<le> i \<and> i < q + n" for i
  proof -
    have "i - q < length ?run"
      using that n by auto
    then have "isWhiteSpace (drop q S ! (i - q))"
      by (rule takeWhile_white_nth)
    then show ?thesis
      using that e n by simp
  qed
  then show "q + n \<le> length S \<and> (\<forall>i. q \<le> i \<and> i < q + n \<longrightarrow> isWhiteSpace (S ! i))"
    using n e by simp
qed

lemma lastLineFeed_le: "lastLineFeed run = Some n \<Longrightarrow> n \<le> length run"
proof -
  assume "lastLineFeed run = Some n"
  then have "n = length (dropWhile (\<lambda>c. c \<noteq> 10) (rev run))"
    by (simp add: lastLineFeed_def Let_def split: if_splits)
  also have "\<dots> \<le> length (rev run)"
    by (rule length_dropWhile_le)
  finally show ?thesis by simp
qed

lemma paragraphMatch_white: "whiteMatcher paragraphMatch"
  unfolding whiteMatcher_def
proof (intro allI impI)
  fix S q n
  assume m: "paragraphMatch S q = Some n"
  let ?run = "takeWhile isWhiteSpace (drop (Suc q) S)"
  from m obtain k where q: "q < length S" "S ! q = 10"
    and k: "lastLineFeed ?run = Some k" and n: "n = Suc k"
    by (auto simp: paragraphMatch_def split: if_splits option.splits)
  have kl: "k \<le> length ?run"
    using k by (rule lastLineFeed_le)
  have "length ?run \<le> length (drop (Suc q) S)"
    by (rule length_takeWhile_le)
  then have le: "q + n \<le> length S"
    using kl n q by simp
  have "isWhiteSpace (S ! i)" if i: "q \<le> i \<and> i < q + n" for i
  proof (cases "i = q")
    case True
    then show ?thesis
      using q by (simp add: isWhiteSpace_def)
  next
    case False
    then have "i - Suc q < length ?run"
      using i n kl by auto
    then have "isWhiteSpace (drop (Suc q) S ! (i - Suc q))"
      by (rule takeWhile_white_nth)
    then show ?thesis
      using False i le n by simp
  qed
  then show "q + n \<le> length S \<and> (\<forall>i. q \<le> i \<and> i < q + n \<longrightarrow> isWhiteSpace (S ! i))"
    using le by simp
qed

declare splitLoop.simps [simp del]

lemma splitLoop_pieces_subset:
  "piece \<in> set (splitLoop m S p q) \<Longrightarrow> set piece \<subseteq> set S"
proof (induction m S p q rule: splitLoop.induct)
  case (1 m S p q)
  show ?case
  proof (cases "q < length S")
    case False
    then have "splitLoop m S p q = [drop p S]"
      by (subst splitLoop.simps) simp
    then show ?thesis
      using "1.prems" set_drop_subset [of p S] by simp
  next
    case q: True
    show ?thesis
    proof (cases "m S q")
      case None
      then have "splitLoop m S p q = splitLoop m S p (Suc q)"
        using q by (subst splitLoop.simps) simp
      then show ?thesis
        using "1.IH"(1) [OF q None] "1.prems" by simp
    next
      case (Some n)
      let ?e = "min (q + n) (length S)"
      show ?thesis
      proof (cases "?e = p")
        case True
        then have "splitLoop m S p q = splitLoop m S p (Suc q)"
          using q Some by (subst splitLoop.simps) (simp add: Let_def)
        then show ?thesis
          using "1.IH"(2) [OF q Some refl True] "1.prems" by simp
      next
        case False
        then have "splitLoop m S p q = take (q - p) (drop p S) # splitLoop m S ?e ?e"
          using q Some by (subst splitLoop.simps) (simp add: Let_def)
        then consider "piece = take (q - p) (drop p S)" | "piece \<in> set (splitLoop m S ?e ?e)"
          using "1.prems" by auto
        then show ?thesis
        proof cases
          case 1
          have "set (take (q - p) (drop p S)) \<subseteq> set (drop p S)"
            by (rule set_take_subset)
          then show ?thesis
            using 1 set_drop_subset [of p S] by blast
        next
          case 2
          then show ?thesis
            using "1.IH"(3) [OF q Some refl False] by simp
        qed
      qed
    qed
  qed
qed

lemma splitLoop_keeps_nonwhite:
  "whiteMatcher m \<Longrightarrow> p \<le> q \<Longrightarrow> x \<in> set (drop p S) \<Longrightarrow> \<not> isWhiteSpace x \<Longrightarrow>
   \<exists>piece\<in>set (splitLoop m S p q). x \<in> set piece"
proof (induction m S p q rule: splitLoop.induct)
  case (1 m S p q)
  note wm = "1.prems"(1) and pq = "1.prems"(2) and x = "1.prems"(3) and nw = "1.prems"(4)
  show ?case
  proof (cases "q < length S")
    case False
    then have "splitLoop m S p q = [drop p S]"
      by (subst splitLoop.simps) simp
    then show ?thesis
      using x by simp
  next
    case q: True
    show ?thesis
    proof (cases "m S q")
      case None
      then have "splitLoop m S p q = splitLoop m S p (Suc q)"
        using q by (subst splitLoop.simps) simp
      moreover have "\<exists>piece\<in>set (splitLoop m S p (Suc q)). x \<in> set piece"
        using "1.IH"(1) [OF q None wm _ x nw] pq by simp
      ultimately show ?thesis
        by simp
    next
      case (Some n)
      let ?e = "min (q + n) (length S)"
      have inside: "q + n \<le> length S"
        and white: "\<And>i. q \<le> i \<and> i < q + n \<Longrightarrow> isWhiteSpace (S ! i)"
        using wm Some unfolding whiteMatcher_def by blast+
      have e: "?e = q + n"
        using inside by simp
      show ?thesis
      proof (cases "?e = p")
        case True
        then have "splitLoop m S p q = splitLoop m S p (Suc q)"
          using q Some by (subst splitLoop.simps) (simp add: Let_def)
        moreover have "\<exists>piece\<in>set (splitLoop m S p (Suc q)). x \<in> set piece"
          using "1.IH"(2) [OF q Some refl True wm _ x nw] pq by simp
        ultimately show ?thesis
          by simp
      next
        case False
        then have s: "splitLoop m S p q = take (q - p) (drop p S) # splitLoop m S ?e ?e"
          using q Some by (subst splitLoop.simps) (simp add: Let_def)
        have "drop p S = take (q - p) (drop p S) @ drop (q - p) (drop p S)"
          by (simp only: append_take_drop_id)
        also have "drop (q - p) (drop p S) = drop q S"
          using pq by simp
        also have "drop q S = take n (drop q S) @ drop n (drop q S)"
          by (simp only: append_take_drop_id)
        also have "drop n (drop q S) = drop ?e S"
          using e by (simp add: add.commute)
        finally have "x \<in> set (take (q - p) (drop p S)) \<or> x \<in> set (take n (drop q S))
                        \<or> x \<in> set (drop ?e S)"
          using x by (metis Un_iff set_append)
        moreover have "x \<notin> set (take n (drop q S))"
        proof
          assume "x \<in> set (take n (drop q S))"
          then obtain i where i: "i < length (take n (drop q S))" "take n (drop q S) ! i = x"
            by (auto simp: in_set_conv_nth)
          then have "i < n" "x = S ! (q + i)"
            using inside by auto
          then show False
            using white [of "q + i"] nw by simp
        qed
        moreover have "\<exists>piece\<in>set (splitLoop m S ?e ?e). x \<in> set piece"
          if "x \<in> set (drop ?e S)"
          using "1.IH"(3) [OF q Some refl False wm _ that nw] by simp
        ultimately show ?thesis
          using s by auto
      qed
    qed
  qed
qed

lemma split_blank:
  "trim S = [] \<Longrightarrow> piece \<in> set (split m S) \<Longrightarrow> trim piece = []"
proof -
  assume b: "trim S = []" and p: "piece \<in> set (split m S)"
  have "set piece \<subseteq> set S"
  proof (cases "S = []")
    case True
    then show ?thesis
      using p by (auto simp: split_def split: option.splits)
  next
    case False
    then show ?thesis
      using p splitLoop_pieces_subset [of piece m S 0 0] by (simp add: split_def)
  qed
  then show ?thesis
    using b unfolding trim_Nil_iff by blast
qed

lemma split_nonblank:
  "whiteMatcher m \<Longrightarrow> trim S \<noteq> [] \<Longrightarrow> \<exists>piece\<in>set (split m S). trim piece \<noteq> []"
proof -
  assume wm: "whiteMatcher m" and nb: "trim S \<noteq> []"
  then obtain x where x: "x \<in> set S" "\<not> isWhiteSpace x"
    unfolding trim_Nil_iff by blast
  then have ne: "S \<noteq> []"
    by auto
  have "\<exists>piece\<in>set (splitLoop m S 0 0). x \<in> set piece"
    using wm x by (intro splitLoop_keeps_nonwhite) simp_all
  then show ?thesis
    using ne x(2) unfolding trim_Nil_iff by (auto simp: split_def)
qed

lemma okChunk_mono: "okChunk maxChars A c \<Longrightarrow> A \<subseteq> B \<Longrightarrow> okChunk maxChars B c"
  unfolding okChunk_def by blast

lemma packSentences_blank:
  "list_all (\<lambda>s. trim s = []) ss \<Longrightarrow> packSentences maxChars ss cur chunks = (cur, chunks)"
  by (induction ss) simp_all

lemma packSentences_current:
  "cur \<noteq> [] \<or> \<not> list_all (\<lambda>s. trim s = []) ss \<Longrightarrow>
   fst (packSentences maxChars ss cur chunks) \<noteq> []"
proof (induction ss arbitrary: cur chunks)
  case Nil
  then show ?case by simp
next
  case (Cons s ss)
  show ?case
  proof (cases "trim s = []")
    case True
    then show ?thesis
      using Cons.prems Cons.IH [of cur chunks] by simp
  next
    case False
    then show ?thesis
      using Cons.IH by simp
  qed
qed

lemma packSentences_ok:
  "set ss \<subseteq> sentences \<Longrightarrow> cur = [] \<or> okChunk maxChars sentences cur \<Longrightarrow>
   list_all (okChunk maxChars sentences) chunks \<Longrightarrow>
   packSentences maxChars ss cur chunks = (cur', chunks') \<Longrightarrow>
   (cur' = [] \<or> okChunk maxChars sentences cur') \<and> list_all (okChunk maxChars sentences) chunks'"
proof (induction ss arbitrary: cur chunks)
  case Nil
  then show ?case by auto
next
  case (Cons s ss)
  note sub = Cons.prems(1) and c = Cons.prems(2) and cs = Cons.prems(3) and r = Cons.prems(4)
  have ss: "set ss \<subseteq> sentences" and s: "s \<in> sentences"
    using sub by simp_all
  show ?case
  proof (cases "trim s = []")
    case True
    then have "packSentences maxChars ss cur chunks = (cur', chunks')"
      using r by simp
    then show ?thesis
      using Cons.IH [OF ss c cs] by simp
  next
    case nb: False
    have single: "okChunk maxChars sentences (trim s)"
      using nb s by (simp add: okChunk_def)
    show ?thesis
    proof (cases "(if cur \<noteq> [] then length cur + length s + 1 else length s) \<le> maxChars")
      case fits: True
      let ?new = "cur @ (if cur \<noteq> [] then [32] else []) @ trim s"
      have "length ?new \<le> (if cur \<noteq> [] then length cur + length s + 1 else length s)"
        using length_trim [of s] by simp
      then have "okChunk maxChars sentences ?new"
        using fits nb by (simp add: okChunk_def)
      moreover have "packSentences maxChars ss ?new chunks = (cur', chunks')"
        using r nb fits by simp
      ultimately show ?thesis
        using Cons.IH [OF ss _ cs, of ?new] by simp
    next
      case over: False
      let ?chunks = "if cur \<noteq> [] then chunks @ [cur] else chunks"
      have "list_all (okChunk maxChars sentences) ?chunks"
        using c cs by auto
      moreover have "packSentences maxChars ss (trim s) ?chunks = (cur', chunks')"
        using r nb over by simp
      ultimately show ?thesis
        using Cons.IH [OF ss _ _, of "trim s" ?chunks] single by simp
    qed
  qed
qed

lemma packParagraphs_blank:
  "list_all (\<lambda>p. trim p = []) ps \<Longrightarrow> packParagraphs maxChars ps chunks = chunks"
  by (induction ps) simp_all

lemma packParagraphs_nonempty:
  "chunks \<noteq> [] \<or> \<not> list_all (\<lambda>p. trim p = []) ps \<Longrightarrow>
   packParagraphs maxChars ps chunks \<noteq> []"
proof (induction ps arbitrary: chunks)
  case Nil
  then show ?case by simp
next
  case (Cons p ps)
  show ?case
  proof (cases "trim p = []")
    case True
    then show ?thesis
      using Cons.prems Cons.IH [of chunks] by simp
  next
    case nb: False
    obtain cur' chunks' where r: "packSentences maxChars (split sentenceMatch p) [] chunks = (cur', chunks')"
      by (cases "packSentences maxChars (split sentenceMatch p) [] chunks") auto
    have "\<exists>s\<in>set (split sentenceMatch p). trim s \<noteq> []"
      using sentenceMatch_white nb by (rule split_nonblank)
    then have "\<not> list_all (\<lambda>s. trim s = []) (split sentenceMatch p)"
      unfolding list_all_iff by blast
    then have "fst (packSentences maxChars (split sentenceMatch p) [] chunks) \<noteq> []"
      by (intro packSentences_current) simp
    then have "cur' \<noteq> []"
      using r by simp
    then have "packParagraphs maxChars (p # ps) chunks = packParagraphs maxChars ps (chunks' @ [cur'])"
      using nb r by simp
    then show ?thesis
      using Cons.IH [of "chunks' @ [cur']"] by simp
  qed
qed

lemma packParagraphs_ok:
  "sentencesOf ps \<subseteq> sentences \<Longrightarrow> list_all (okChunk maxChars sentences) chunks \<Longrightarrow>
   list_all (okChunk maxChars sentences) (packParagraphs maxChars ps chunks)"
proof (induction ps arbitrary: chunks)
  case Nil
  then show ?case by simp
next
  case (Cons p ps)
  have ps: "sentencesOf ps \<subseteq> sentences" and p: "set (split sentenceMatch p) \<subseteq> sentences"
    using Cons.prems(1) by (simp_all add: sentencesOf_def)
  show ?case
  proof (cases "trim p = []")
    case True
    then show ?thesis
      using Cons.IH [OF ps Cons.prems(2)] by simp
  next
    case nb: False
    obtain cur' chunks' where r: "packSentences maxChars (split sentenceMatch p) [] chunks = (cur', chunks')"
      by (cases "packSentences maxChars (split sentenceMatch p) [] chunks") auto
    have ok: "(cur' = [] \<or> okChunk maxChars sentences cur')
                \<and> list_all (okChunk maxChars sentences) chunks'"
      using p _ Cons.prems(2) r by (rule packSentences_ok) simp
    let ?chunks = "if cur' \<noteq> [] then chunks' @ [cur'] else chunks'"
    have "list_all (okChunk maxChars sentences) ?chunks"
      using ok by auto
    then have "list_all (okChunk maxChars sentences) (packParagraphs maxChars ps ?chunks)"
      by (rule Cons.IH [OF ps])
    then show ?thesis
      using nb r by simp
  qed
qed

lemma joinSpace_snoc: "g \<noteq> [] \<Longrightarrow> joinSpace (g @ [t]) = joinSpace g @ [32] @ t"
  by (induction g rule: joinSpace.induct) simp_all

lemma joinSpace_nonempty: "g \<noteq> [] \<Longrightarrow> [] \<notin> set g \<Longrightarrow> joinSpace g \<noteq> []"
  by (induction g rule: joinSpace.induct) simp_all

lemma length_joinSpace_ge: "s \<in> set g \<Longrightarrow> length s \<le> length (joinSpace g)"
  by (induction g rule: joinSpace.induct) auto

lemma packSentences_groups:
  assumes "g = [] \<or> okGroup maxChars g" and "cur = joinSpace g"
  shows "\<exists>gs g'. packSentences maxChars ss cur chunks = (joinSpace g', chunks @ map joinSpace gs)
           \<and> concat gs @ g' = g @ filter (\<lambda>s. s \<noteq> []) (map trim ss)
           \<and> list_all (okGroup maxChars) gs \<and> (g' = [] \<or> okGroup maxChars g')"
  using assms
proof (induction ss arbitrary: g cur chunks)
  case Nil
  have "packSentences maxChars [] cur chunks = (joinSpace g, chunks @ map joinSpace [])"
    using Nil.prems(2) by simp
  then show ?case
    using Nil.prems(1) by (intro exI [of _ "[]"] exI [of _ g]) simp
next
  case (Cons s ss)
  note g = Cons.prems(1) and cur = Cons.prems(2)
  have empty: "cur = [] \<longleftrightarrow> g = []"
    using g cur joinSpace_nonempty [of g] by (auto simp: okGroup_def)
  show ?case
  proof (cases "trim s = []")
    case True
    from Cons.IH [OF g cur, of chunks]
    obtain gs g' where "packSentences maxChars ss cur chunks = (joinSpace g', chunks @ map joinSpace gs)"
      "concat gs @ g' = g @ filter (\<lambda>s. s \<noteq> []) (map trim ss)"
      "list_all (okGroup maxChars) gs" "g' = [] \<or> okGroup maxChars g'"
      by blast
    then show ?thesis
      using True by (intro exI [of _ gs] exI [of _ g']) simp
  next
    case nb: False
    show ?thesis
    proof (cases "(if cur \<noteq> [] then length cur + length s + 1 else length s) \<le> maxChars")
      case fits: True
      let ?new = "cur @ (if cur \<noteq> [] then [32] else []) @ trim s"
      let ?g = "g @ [trim s]"
      have new: "?new = joinSpace ?g"
        using empty cur by (cases "g = []") (simp_all add: joinSpace_snoc)
      have "length ?new \<le> (if cur \<noteq> [] then length cur + length s + 1 else length s)"
        using length_trim [of s] by simp
      then have "length (joinSpace ?g) \<le> maxChars"
        using fits new by simp
      moreover have "[] \<notin> set ?g"
        using g nb by (auto simp: okGroup_def)
      ultimately have ok: "?g = [] \<or> okGroup maxChars ?g"
        by (simp add: okGroup_def)
      from Cons.IH [OF ok new, of chunks]
      obtain gs g' where r: "packSentences maxChars ss ?new chunks
                               = (joinSpace g', chunks @ map joinSpace gs)"
        "concat gs @ g' = ?g @ filter (\<lambda>s. s \<noteq> []) (map trim ss)"
        "list_all (okGroup maxChars) gs" "g' = [] \<or> okGroup maxChars g'"
        by blast
      have "packSentences maxChars (s # ss) cur chunks = (joinSpace g', chunks @ map joinSpace gs)"
        using nb fits r(1) by simp
      then show ?thesis
        using r(2,3,4) nb by (intro exI [of _ gs] exI [of _ g']) simp
    next
      case over: False
      let ?chunks = "if cur \<noteq> [] then chunks @ [cur] else chunks"
      let ?pre = "if g \<noteq> [] then [g] else []"
      have single: "[trim s] = [] \<or> okGroup maxChars [trim s]"
        using nb by (simp add: okGroup_def)
      have j: "trim s = joinSpace [trim s]"
        by simp
      from Cons.IH [OF single j, of ?chunks]
      obtain gs g' where r: "packSentences maxChars ss (trim s) ?chunks
                               = (joinSpace g', ?chunks @ map joinSpace gs)"
        "concat gs @ g' = [trim s] @ filter (\<lambda>s. s \<noteq> []) (map trim ss)"
        "list_all (okGroup maxChars) gs" "g' = [] \<or> okGroup maxChars g'"
        by blast
      have c: "?chunks = chunks @ map joinSpace ?pre"
        using empty cur by simp
      have "packSentences maxChars (s # ss) cur chunks
              = (joinSpace g', chunks @ map joinSpace (?pre @ gs))"
        using nb over r(1) by (simp add: c)
      moreover have "concat (?pre @ gs) @ g' = g @ filter (\<lambda>s. s \<noteq> []) (map trim (s # ss))"
        using r(2) nb by simp
      moreover have "list_all (okGroup maxChars) (?pre @ gs)"
        using r(3) g by auto
      ultimately show ?thesis
        using r(4) by blast
    qed
  qed
qed

lemma packParagraphs_groups:
  "\<exists>gs. packParagraphs maxChars ps chunks = chunks @ map joinSpace gs
     \<and> concat gs = concat (map (\<lambda>p. filter (\<lambda>s. s \<noteq> []) (map trim (split sentenceMatch p))) ps)
     \<and> list_all (okGroup maxChars) gs"
proof (induction ps arbitrary: chunks)
  case Nil
  show ?case
    by (intro exI [of _ "[]"]) simp
next
  case (Cons p ps)
  let ?f = "\<lambda>p. filter (\<lambda>s. s \<noteq> []) (map trim (split sentenceMatch p))"
  show ?case
  proof (cases "trim p = []")
    case True
    have "trim s = []" if "s \<in> set (split sentenceMatch p)" for s
      using True that by (rule split_blank)
    then have e: "?f p = []"
      by (simp add: filter_empty_conv)
    from Cons.IH [of chunks] obtain gs where
      "packParagraphs maxChars ps chunks = chunks @ map joinSpace gs"
      "concat gs = concat (map ?f ps)" "list_all (okGroup maxChars) gs"
      by blast
    then show ?thesis
      using True e by (intro exI [of _ gs]) simp
  next
    case nb: False
    have start: "([] :: jsstring list) = [] \<or> okGroup maxChars []" "[] = joinSpace []"
      by simp_all
    from packSentences_groups [OF start, of "split sentenceMatch p" chunks]
    obtain gs1 g' where r: "packSentences maxChars (split sentenceMatch p) [] chunks
                              = (joinSpace g', chunks @ map joinSpace gs1)"
      "concat gs1 @ g' = ?f p"
      "list_all (okGroup maxChars) gs1" "g' = [] \<or> okGroup maxChars g'"
      by auto
    let ?last = "if g' \<noteq> [] then [g'] else []"
    let ?chunks = "if joinSpace g' \<noteq> [] then (chunks @ map joinSpace gs1) @ [joinSpace g']
                   else chunks @ map joinSpace gs1"
    have e: "joinSpace g' = [] \<longleftrightarrow> g' = []"
      using r(4) joinSpace_nonempty [of g'] by (auto simp: okGroup_def)
    have c: "?chunks = chunks @ map joinSpace (gs1 @ ?last)"
      using e by simp
    from Cons.IH [of ?chunks] obtain gs where i:
      "packParagraphs maxChars ps ?chunks = ?chunks @ map joinSpace gs"
      "concat gs = concat (map ?f ps)" "list_all (okGroup maxChars) gs"
      by blast
    have "packParagraphs maxChars (p # ps) chunks = packParagraphs maxChars ps ?chunks"
      using nb r(1) by simp
    also have "\<dots> = ?chunks @ map joinSpace gs"
      by (rule i(1))
    also have "\<dots> = chunks @ map joinSpace ((gs1 @ ?last) @ gs)"
      unfolding c by simp
    finally have "packParagraphs maxChars (p # ps) chunks
                 = chunks @ map joinSpace ((gs1 @ ?last) @ gs)" .
    moreover have "concat ((gs1 @ ?last) @ gs) = concat (map ?f (p # ps))"
      using r(2) i(2) by auto
    moreover have "list_all (okGroup maxChars) ((gs1 @ ?last) @ gs)"
      using r(3,4) i(3) by auto
    ultimately show ?thesis
      by blast
  qed
qed


text \<open>
  C8. If the trimmed text is not empty the segmentation yields at least one chunk; if the
  text is empty or white space only it yields none. No chunk is empty, and a chunk longer
  than \<open>maxChars\<close> is one whole sentence of the text (one piece of the sentence split of
  one of its paragraphs), trimmed. Nothing is lost: the chunks are the trimmed, non-blank
  sentences of the text, in order, cut into consecutive groups, the sentences of a group
  being joined by single spaces, and a group whose chunk is longer than \<open>maxChars\<close> holds
  one sentence only. So every sentence longer than \<open>maxChars\<close> is a chunk of its own,
  neither truncated nor split.
\<close>

theorem segmentation_chunks:
  "(trim text \<noteq> [] \<longrightarrow> segmentText maxChars text \<noteq> [])
   \<and> (trim text = [] \<longrightarrow> segmentText maxChars text = [])
   \<and> (\<forall>c\<in>set (segmentText maxChars text).
         c \<noteq> [] \<and>
         (maxChars < length c \<longrightarrow>
            (\<exists>p\<in>set (split paragraphMatch text). \<exists>s\<in>set (split sentenceMatch p).
               c = trim s \<and> maxChars < length s)))
   \<and> (\<exists>groups. segmentText maxChars text = map joinSpace groups
         \<and> concat groups = trimmedSentences text
         \<and> (\<forall>g\<in>set groups. g \<noteq> [] \<and> [] \<notin> set g
                \<and> (maxChars < length (joinSpace g) \<longrightarrow> length g = 1)))
   \<and> (\<forall>s\<in>set (trimmedSentences text).
         maxChars < length s \<longrightarrow> s \<in> set (segmentText maxChars text))"
proof -
  let ?ps = "split paragraphMatch text"
  let ?chunks = "packParagraphs maxChars ?ps []"
  let ?S = "sentencesOf ?ps"
  have ok: "list_all (okChunk maxChars ?S) ?chunks"
    by (rule packParagraphs_ok) simp_all
  have single: "c \<noteq> [] \<and>
         (maxChars < length c \<longrightarrow>
            (\<exists>p\<in>set ?ps. \<exists>s\<in>set (split sentenceMatch p). c = trim s \<and> maxChars < length s))"
    if "c \<in> set ?chunks" for c
  proof -
    have c: "okChunk maxChars ?S c"
      using ok that unfolding list_all_iff by blast
    have "\<exists>p\<in>set ?ps. \<exists>s\<in>set (split sentenceMatch p). c = trim s \<and> maxChars < length s"
      if long: "maxChars < length c"
    proof -
      from c long obtain s where s: "s \<in> ?S" "c = trim s"
        unfolding okChunk_def by auto
      have "maxChars < length s"
        using long s(2) length_trim [of s] by simp
      then show ?thesis
        using s unfolding sentencesOf_def by blast
    qed
    then show ?thesis
      using c unfolding okChunk_def by blast
  qed
  have seg: "segmentText maxChars text = ?chunks"
    and ne: "trim text \<noteq> [] \<longrightarrow> ?chunks \<noteq> []" and em: "trim text = [] \<longrightarrow> ?chunks = []"
  proof -
    have e: "?chunks = []" if "trim text = []"
    proof -
      have "list_all (\<lambda>p. trim p = []) ?ps"
        unfolding list_all_iff using split_blank [OF that] by blast
      then show ?thesis
        by (rule packParagraphs_blank)
    qed
    have n: "?chunks \<noteq> []" if "trim text \<noteq> []"
    proof -
      have "\<exists>p\<in>set ?ps. trim p \<noteq> []"
        using paragraphMatch_white that by (rule split_nonblank)
      then have "\<not> list_all (\<lambda>p. trim p = []) ?ps"
        unfolding list_all_iff by blast
      then show ?thesis
        by (intro packParagraphs_nonempty) simp
    qed
    show "segmentText maxChars text = ?chunks"
      using n by (auto simp: segmentText_def Let_def)
    show "trim text \<noteq> [] \<longrightarrow> ?chunks \<noteq> []" "trim text = [] \<longrightarrow> ?chunks = []"
      using e n by blast+
  qed
  from packParagraphs_groups [of maxChars ?ps "[]"]
  obtain gs where gs: "?chunks = map joinSpace gs" "concat gs = trimmedSentences text"
    "list_all (okGroup maxChars) gs"
    by (auto simp: trimmedSentences_def)
  have grp: "g \<noteq> [] \<and> [] \<notin> set g \<and> (maxChars < length (joinSpace g) \<longrightarrow> length g = 1)"
    if "g \<in> set gs" for g
    using gs(3) that unfolding list_all_iff okGroup_def by blast
  have own: "s \<in> set ?chunks" if s: "s \<in> set (trimmedSentences text)" "maxChars < length s" for s
  proof -
    from s(1) obtain g where g: "g \<in> set gs" "s \<in> set g"
      unfolding gs(2) [symmetric] by auto
    have "length s \<le> length (joinSpace g)"
      using g(2) by (rule length_joinSpace_ge)
    then have "length g = 1"
      using grp [OF g(1)] s(2) by simp
    then have "g = [s]"
      using g(2) by (cases g) simp_all
    then have "joinSpace g = s"
      by simp
    then show ?thesis
      using g(1) unfolding gs(1) by force
  qed
  have groups: "\<exists>groups. ?chunks = map joinSpace groups
         \<and> concat groups = trimmedSentences text
         \<and> (\<forall>g\<in>set groups. g \<noteq> [] \<and> [] \<notin> set g
                \<and> (maxChars < length (joinSpace g) \<longrightarrow> length g = 1))"
    using gs(1,2) grp by blast
  show ?thesis
    unfolding seg using ne em single groups own by blast
qed

lemma exText_paragraphs:
  "split paragraphMatch exText =
     [[65, 110, 32, 111, 120, 46, 32, 67, 100, 101, 102, 103, 104, 105, 106], [79, 107]]"
  "split paragraphMatch twoLong = [twoLong]"
  by (simp_all add: split_def exText_def twoLong_def splitLoop.simps paragraphMatch_def
        lastLineFeed_def isWhiteSpace_def)

lemma exText_sentences:
  "split sentenceMatch [65, 110, 32, 111, 120, 46, 32, 67, 100, 101, 102, 103, 104, 105, 106]
     = [[65, 110, 32, 111, 120, 46], [67, 100, 101, 102, 103, 104, 105, 106]]"
  "split sentenceMatch [79, 107] = [[79, 107]]"
  "split sentenceMatch twoLong
     = [[65, 98, 99, 100, 101, 102, 103, 104, 46], [73, 106, 107, 108, 109, 110, 111, 112, 46]]"
  by (simp_all add: split_def twoLong_def splitLoop.simps sentenceMatch_def isWhiteSpace_def
        isSentenceEnd_def isCapital_def isUpperAZ_def isLowerAZ_def isWordChar_def
        isLineTerminator_def Let_def)

lemma exText_trims:
  "trim [65, 110, 32, 111, 120, 46] = [65, 110, 32, 111, 120, 46]"
  "trim [67, 100, 101, 102, 103, 104, 105, 106] = [67, 100, 101, 102, 103, 104, 105, 106]"
  "trim [79, 107] = [79, 107]"
  "trim [65, 110, 32, 111, 120, 46, 32, 67, 100, 101, 102, 103, 104, 105, 106] \<noteq> []"
  "trim exText \<noteq> []"
  "trim [32, 10, 10, 9] = []"
  "trim [65, 98, 99, 100, 101, 102, 103, 104, 46] = [65, 98, 99, 100, 101, 102, 103, 104, 46]"
  "trim [73, 106, 107, 108, 109, 110, 111, 112, 46] = [73, 106, 107, 108, 109, 110, 111, 112, 46]"
  "trim twoLong \<noteq> []"
  by (simp_all add: trim_def isWhiteSpace_def exText_def twoLong_def)

lemma exText_chunks:
  "segmentText 6 exText =
     [[65, 110, 32, 111, 120, 46], [67, 100, 101, 102, 103, 104, 105, 106], [79, 107]]"
  by (simp add: segmentText_def exText_paragraphs exText_sentences exText_trims)

lemma exText_trimmed:
  "trimmedSentences exText =
     [[65, 110, 32, 111, 120, 46], [67, 100, 101, 102, 103, 104, 105, 106], [79, 107]]"
  "trimmedSentences twoLong =
     [[65, 98, 99, 100, 101, 102, 103, 104, 46], [73, 106, 107, 108, 109, 110, 111, 112, 46]]"
  by (simp_all add: trimmedSentences_def exText_paragraphs exText_sentences exText_trims)

theorem segmentation_chunks_witness:
  "trim exText \<noteq> [] \<and> segmentText 6 exText \<noteq> []
   \<and> [67, 100, 101, 102, 103, 104, 105, 106] \<in> set (trimmedSentences exText)
   \<and> [67, 100, 101, 102, 103, 104, 105, 106] \<in> set (segmentText 6 exText)
   \<and> (\<exists>p\<in>set (split paragraphMatch exText). \<exists>s\<in>set (split sentenceMatch p).
         [67, 100, 101, 102, 103, 104, 105, 106] = trim s \<and> 6 < length s)
   \<and> trimmedSentences twoLong =
        [[65, 98, 99, 100, 101, 102, 103, 104, 46], [73, 106, 107, 108, 109, 110, 111, 112, 46]]
   \<and> [65, 98, 99, 100, 101, 102, 103, 104, 46] \<in> set (segmentText 6 twoLong)
   \<and> [73, 106, 107, 108, 109, 110, 111, 112, 46] \<in> set (segmentText 6 twoLong)
   \<and> trim [32, 10, 10, 9] = [] \<and> segmentText 6 [32, 10, 10, 9] = []"
proof -
  note a = segmentation_chunks [of exText 6]
  note b = segmentation_chunks [of "[32, 10, 10, 9]" 6]
  note c = segmentation_chunks [of twoLong 6]
  have t: "[67, 100, 101, 102, 103, 104, 105, 106] \<in> set (trimmedSentences exText)"
    by (simp add: exText_trimmed)
  have l: "(6::nat) < length [67, 100, 101, 102, 103, 104, 105, 106 :: nat]"
    by simp
  have m: "[67, 100, 101, 102, 103, 104, 105, 106] \<in> set (segmentText 6 exText)"
    using a t l by blast
  have "\<exists>p\<in>set (split paragraphMatch exText). \<exists>s\<in>set (split sentenceMatch p).
         [67, 100, 101, 102, 103, 104, 105, 106] = trim s \<and> 6 < length s"
    using a m l by blast
  moreover have "segmentText 6 exText \<noteq> []"
    using a exText_trims(5) by blast
  moreover have "segmentText 6 [32, 10, 10, 9] = []"
    using b exText_trims(6) by blast
  moreover have "[65, 98, 99, 100, 101, 102, 103, 104, 46] \<in> set (segmentText 6 twoLong)"
    "[73, 106, 107, 108, 109, 110, 111, 112, 46] \<in> set (segmentText 6 twoLong)"
    using c by (simp_all add: exText_trimmed)
  ultimately show ?thesis
    using t m exText_trims(5,6) exText_trimmed(2) by blast
qed

section \<open>Properties of the batch dispatch\<close>

lemma length_handleEvent [simp]:
  "length (orderedBuffers (handleEvent env e st)) = length (orderedBuffers st)"
  by (cases e) (simp_all add: Let_def split: sum.split)




lemma started_handleEvent [simp]:
  "started (handleEvent env e st) = started st"
  by (cases e) (simp_all add: Let_def split: sum.split)

lemma started_fold_handleEvent [simp]:
  "started (fold (handleEvent env) es st) = started st"
  by (induction es arbitrary: st) simp_all


lemma slotsRight_handleEvent:
  "slotsRight env st \<Longrightarrow> slotsRight env (handleEvent env e st)"
proof (cases e)
  case StopRequested
  assume "slotsRight env st"
  then show ?thesis
    using StopRequested by (simp add: slotsRight_def)
next
  case GenerateRequested
  assume "slotsRight env st"
  then show ?thesis
    using GenerateRequested by (simp add: slotsRight_def)
next
  case GenerationEnded
  assume "slotsRight env st"
  then show ?thesis
    using GenerationEnded by (simp add: slotsRight_def)
next
  case (Settled j)
  assume s: "slotsRight env st"
  show ?thesis
  proof (cases "result (speechFor env j)")
    case (Inl err)
    then show ?thesis
      using s Settled by (simp add: slotsRight_def Let_def)
  next
    case (Inr buf)
    have "result (speechFor env k) = Inr b"
      if "k < length (textChunks env)" "(orderedBuffers st)[j := Some buf] ! k = Some b" for k b
    proof (cases "k = j")
      case True
      then show ?thesis
        using that s Inr by (simp add: slotsRight_def)
    next
      case False
      then show ?thesis
        using that s by (simp add: slotsRight_def)
    qed
    then show ?thesis
      using s Settled Inr by (simp add: slotsRight_def Let_def)
  qed
qed

lemma slotsRight_fold:
  "slotsRight env st \<Longrightarrow> slotsRight env (fold (handleEvent env) es st)"
  by (induction es arbitrary: st) (simp_all add: slotsRight_handleEvent)

lemma slotsRight_runBatch:
  "slotsRight env st \<Longrightarrow> slotsRight env (runBatch env i st)"
proof -
  assume "slotsRight env st"
  then have "slotsRight env (st\<lparr>started := started st
               @ [i..<min (i + concurrency env) (length (textChunks env))]\<rparr>)"
    by (simp add: slotsRight_def)
  then show ?thesis
    unfolding runBatch_def Let_def by (rule slotsRight_fold)
qed

lemma slotsRight_initial:
  "slotsRight env (initialSession (length (textChunks env)))"
  by (simp add: slotsRight_def initialSession_def)

text \<open>The loop ends when the limit is positive, and keeps what every batch keeps.\<close>

lemma dispatchLoop_invariant:
  assumes lim: "0 < concurrency env"
    and step: "\<And>i st. P st \<Longrightarrow> P (runBatch env i st)"
  shows "P st \<Longrightarrow> \<exists>st'. dispatchLoop env i st = Some st' \<and> P st'"
proof (induction "length (textChunks env) - i" arbitrary: i st rule: less_induct)
  case less
  show ?case
  proof (cases "i < length (textChunks env)")
    case False
    then have "dispatchLoop env i st = Some st"
      by (subst dispatchLoop.simps) simp
    then show ?thesis
      using less.prems by simp
  next
    case i: True
    show ?thesis
    proof (cases "stopGenerationRef st")
      case True
      then have "dispatchLoop env i st = Some st"
        by (subst dispatchLoop.simps) simp
      then show ?thesis
        using less.prems by simp
    next
      case ns: False
      let ?st = "runBatch env i st"
      have P: "P ?st"
        using less.prems by (rule step)
      show ?thesis
      proof (cases "errorRendered env \<or> stopGenerationRef ?st")
        case True
        then have "dispatchLoop env i st = Some ?st"
          using i ns by (subst dispatchLoop.simps) auto
        then show ?thesis
          using P by simp
      next
        case False
        then have "dispatchLoop env i st = dispatchLoop env (i + concurrency env) ?st"
          using i ns by (subst dispatchLoop.simps) auto
        moreover have "length (textChunks env) - (i + concurrency env) < length (textChunks env) - i"
          using i lim by simp
        ultimately show ?thesis
          using less.hyps [of "i + concurrency env" ?st] P by simp
      qed
    qed
  qed
qed



lemma speechFor_sched [simp]: "speechFor (env\<lparr>sched := s\<rparr>) j = speechFor env j"
  by (simp add: speechFor_def)

lemma slotOf_sched [simp]: "slotOf (env\<lparr>sched := s\<rparr>) j = slotOf env j"
  by (simp add: slotOf_def)

lemma handleEvent_settled_slots:
  "\<not> stopGenerationRef st \<Longrightarrow>
   \<not> stopGenerationRef (handleEvent env (Settled k) st) \<and>
   orderedBuffers (handleEvent env (Settled k) st) =
     (if slotOf env k \<noteq> None then (orderedBuffers st)[k := slotOf env k] else orderedBuffers st)"
  by (cases "result (speechFor env k)") (simp_all add: slotOf_def Let_def)

lemma fold_settled_slots:
  "list_all isSettled es \<Longrightarrow> \<not> stopGenerationRef st \<Longrightarrow>
   \<not> stopGenerationRef (fold (handleEvent env) es st) \<and>
   (\<forall>j<length (orderedBuffers st).
      orderedBuffers (fold (handleEvent env) es st) ! j =
        (if Settled j \<in> set es \<and> slotOf env j \<noteq> None then slotOf env j
         else orderedBuffers st ! j))"
proof (induction es arbitrary: st)
  case Nil
  then show ?case by simp
next
  case (Cons e es)
  from Cons.prems obtain k where e: "e = Settled k"
    by (cases e) auto
  define st1 where "st1 = handleEvent env (Settled k) st"
  have h: "\<not> stopGenerationRef st1"
    and o: "orderedBuffers st1 =
      (if slotOf env k \<noteq> None then (orderedBuffers st)[k := slotOf env k] else orderedBuffers st)"
    unfolding st1_def using handleEvent_settled_slots [OF Cons.prems(2), of env k] by blast+
  have len: "length (orderedBuffers st1) = length (orderedBuffers st)"
    by (simp add: o)
  have f: "fold (handleEvent env) (e # es) st = fold (handleEvent env) es st1"
    by (simp add: e st1_def)
  have ih: "\<not> stopGenerationRef (fold (handleEvent env) es st1) \<and>
   (\<forall>j<length (orderedBuffers st1).
      orderedBuffers (fold (handleEvent env) es st1) ! j =
        (if Settled j \<in> set es \<and> slotOf env j \<noteq> None then slotOf env j
         else orderedBuffers st1 ! j))"
    using Cons.prems(1) h by (intro Cons.IH) simp_all
  have "orderedBuffers (fold (handleEvent env) es st1) ! j =
        (if Settled j \<in> set (e # es) \<and> slotOf env j \<noteq> None then slotOf env j
         else orderedBuffers st ! j)" if j: "j < length (orderedBuffers st)" for j
  proof -
    have "orderedBuffers st1 ! j =
            (if k = j \<and> slotOf env j \<noteq> None then slotOf env j else orderedBuffers st ! j)"
      using j by (cases "k = j") (auto simp: o)
    then show ?thesis
      using ih j e len by auto
  qed
  then show ?case
    using ih by (simp only: f) simp
qed

lemma settledBelow_runBatch:
  assumes s: "settledBelow env i st"
    and c: "completionOrder env i (sched env i)"
  shows "settledBelow env (i + concurrency env) (runBatch env i st)"
proof -
  let ?n = "length (textChunks env)"
  let ?es = "sched env i"
  let ?st1 = "st\<lparr>started := started st @ [i..<min (i + concurrency env) ?n]\<rparr>"
  have ns: "list_all isSettled ?es"
    using c by (auto simp: completionOrder_def list_all_iff)
  have mem: "Settled j \<in> set ?es \<longleftrightarrow> i \<le> j \<and> j < i + concurrency env" if "j < ?n" for j
    using c that by (auto simp: completionOrder_def)
  have f: "\<not> stopGenerationRef (fold (handleEvent env) ?es ?st1) \<and>
   (\<forall>j<length (orderedBuffers ?st1).
      orderedBuffers (fold (handleEvent env) ?es ?st1) ! j =
        (if Settled j \<in> set ?es \<and> slotOf env j \<noteq> None then slotOf env j
         else orderedBuffers ?st1 ! j))"
    using ns s by (intro fold_settled_slots) (simp_all add: settledBelow_def)
  have r: "runBatch env i st = fold (handleEvent env) ?es ?st1"
    by (simp add: runBatch_def Let_def)
  have len: "length (orderedBuffers (runBatch env i st)) = ?n"
  proof -
    have "length (orderedBuffers (fold (handleEvent env) es st')) = length (orderedBuffers st')"
      for es st'
      by (induction es arbitrary: st') simp_all
    then show ?thesis
      using s by (simp add: r settledBelow_def)
  qed
  have "orderedBuffers (runBatch env i st) ! j
          = (if j < i + concurrency env then slotOf env j else None)" if j: "j < ?n" for j
  proof -
    have "orderedBuffers (runBatch env i st) ! j =
        (if Settled j \<in> set ?es \<and> slotOf env j \<noteq> None then slotOf env j
         else orderedBuffers st ! j)"
      using f j s by (simp add: r settledBelow_def)
    moreover have "orderedBuffers st ! j = (if j < i then slotOf env j else None)"
      using s j by (simp add: settledBelow_def)
    ultimately show ?thesis
      using mem [OF j] by auto
  qed
  then show ?thesis
    using f len by (simp add: settledBelow_def r)
qed

lemma dispatchLoop_uninterrupted:
  assumes lim: "0 < concurrency env" and u: "uninterrupted env"
  shows "settledBelow env i st \<Longrightarrow> concurrency env dvd i \<Longrightarrow>
         \<exists>st'. dispatchLoop env i st = Some st' \<and>
               orderedBuffers st' = map (slotOf env) [0..<length (textChunks env)]"
proof (induction "length (textChunks env) - i" arbitrary: i st rule: less_induct)
  case less
  let ?n = "length (textChunks env)"
  note s = less.prems(1)
  show ?case
  proof (cases "i < ?n")
    case False
    then have "dispatchLoop env i st = Some st"
      by (subst dispatchLoop.simps) simp
    moreover have "orderedBuffers st = map (slotOf env) [0..<?n]"
      using s False by (intro nth_equalityI) (simp_all add: settledBelow_def)
    ultimately show ?thesis
      by simp
  next
    case i: True
    let ?st = "runBatch env i st"
    have c: "completionOrder env i (sched env i)"
      using u i less.prems(2) by (simp add: uninterrupted_def)
    have s': "settledBelow env (i + concurrency env) ?st"
      using s c by (rule settledBelow_runBatch)
    have "\<not> stopGenerationRef st" "\<not> (errorRendered env \<or> stopGenerationRef ?st)"
      using s s' u by (simp_all add: settledBelow_def uninterrupted_def)
    then have "dispatchLoop env i st = dispatchLoop env (i + concurrency env) ?st"
      using i by (subst dispatchLoop.simps) simp
    moreover have "?n - (i + concurrency env) < ?n - i"
      using i lim by simp
    ultimately show ?thesis
      using less.hyps [of "i + concurrency env" ?st] s' less.prems(2) by simp
  qed
qed

lemma settledBelow_initial: "settledBelow env 0 (initialSession (length (textChunks env)))"
  by (simp add: settledBelow_def initialSession_def)

text \<open>
  C1. For every list of chunks, every positive concurrency limit and every schedule, the
  batch loop ends, \<open>orderedBuffers\<close> has one slot per chunk, and a filled slot \<open>j\<close> holds the
  buffer returned by the speech call for chunk \<open>j\<close>. When no stop is requested, the stale
  error is unset and every batch settles all its calls, in whatever order, slot \<open>j\<close> is
  exactly the outcome of the call for chunk \<open>j\<close>: the slots do not depend on the schedule.
\<close>

theorem slots_follow_chunk_order:
  assumes lim: "0 < concurrency env"
  shows "\<exists>st. dispatchLoop (env\<lparr>sched := schedule\<rparr>) 0
                (initialSession (length (textChunks env))) = Some st
          \<and> length (orderedBuffers st) = length (textChunks env)
          \<and> (\<forall>j<length (textChunks env). \<forall>b.
                orderedBuffers st ! j = Some b \<longrightarrow> result (speechFor env j) = Inr b)
          \<and> (uninterrupted (env\<lparr>sched := schedule\<rparr>) \<longrightarrow>
                orderedBuffers st = map (slotOf env) [0..<length (textChunks env)])"
proof -
  let ?env = "env\<lparr>sched := schedule\<rparr>"
  let ?n = "length (textChunks env)"
  have lim': "0 < concurrency ?env"
    using lim by simp
  have n: "length (textChunks ?env) = ?n"
    by simp
  from dispatchLoop_invariant [of ?env "slotsRight ?env", OF lim' slotsRight_runBatch
         slotsRight_initial, of 0]
  obtain st where st: "dispatchLoop ?env 0 (initialSession ?n) = Some st"
    and right: "slotsRight ?env st"
    by (auto simp: n)
  have filled: "\<forall>j<?n. \<forall>b. orderedBuffers st ! j = Some b \<longrightarrow> result (speechFor env j) = Inr b"
    using right by (simp add: slotsRight_def)
  have len: "length (orderedBuffers st) = ?n"
    using right by (simp add: slotsRight_def)
  have "orderedBuffers st = map (slotOf env) [0..<?n]" if u: "uninterrupted ?env"
  proof -
    from dispatchLoop_uninterrupted [OF lim' u, of 0 "initialSession ?n"]
    obtain st' where "dispatchLoop ?env 0 (initialSession ?n) = Some st'"
      and "orderedBuffers st' = map (slotOf ?env) [0..<?n]"
      using settledBelow_initial [of ?env] by (auto simp: n)
    then show ?thesis
      using st by simp
  qed
  then show ?thesis
    using st filled len by blast
qed

lemma exEnv_call_ok:
  "j \<noteq> 2 \<Longrightarrow> speechFor exEnv j =
     \<lparr>result = Inr (toneBuffer j), invocations = 1, waited = []\<rparr>"
  by (simp add: speechFor_def generateSpeech_def callGeminiApiWithRetries_def exEnv_def
        exService_def retryLoop.simps)

lemma exEnv_call_refused:
  "speechFor exEnv 2 = \<lparr>result = Inl AuthenticationError, invocations = 1, waited = []\<rparr>"
  by (simp add: speechFor_def generateSpeech_def callGeminiApiWithRetries_def exEnv_def
        exService_def retryLoop.simps forbidden403_def parseGeminiError_def
        isQuotaError_def isModelOverloadedError_def isEmptyResponseError_def notRetried_def)

lemma reversedBatches_completionOrder:
  "completionOrder env i (reversedBatches (concurrency env) (length (textChunks env)) i)"
  by (simp add: completionOrder_def reversedBatches_def distinct_map inj_on_def)

theorem slots_follow_chunk_order_witness:
  "0 < concurrency exEnv \<and> uninterrupted exEnv \<and>
   (\<exists>st. dispatchLoop exEnv 0 (initialSession 5) = Some st
      \<and> orderedBuffers st =
          [Some (toneBuffer 0), Some (toneBuffer 1), None, Some (toneBuffer 3), Some (toneBuffer 4)])"
proof -
  have lim: "0 < concurrency exEnv"
    by (simp add: exEnv_def)
  have e: "exEnv\<lparr>sched := sched exEnv\<rparr> = exEnv"
    by simp
  have n: "length (textChunks exEnv) = 5"
    by (simp add: exEnv_def)
  have "sched exEnv = reversedBatches (concurrency exEnv) 5"
    by (simp add: exEnv_def)
  then have s: "sched exEnv = reversedBatches (concurrency exEnv) (length (textChunks exEnv))"
    by (simp only: n)
  have "completionOrder exEnv i (sched exEnv i)" for i
    unfolding s by (rule reversedBatches_completionOrder)
  moreover have "\<not> errorRendered exEnv"
    by (simp add: exEnv_def)
  ultimately have u: "uninterrupted exEnv"
    unfolding uninterrupted_def by blast
  have five: "[0..<5] = [0, 1, 2, 3, 4]"
    by (simp add: upt_rec)
  have slots: "map (slotOf exEnv) [0..<5] =
     [Some (toneBuffer 0), Some (toneBuffer 1), None, Some (toneBuffer 3), Some (toneBuffer 4)]"
    by (simp add: five slotOf_def exEnv_call_ok exEnv_call_refused)
  from slots_follow_chunk_order [OF lim, of "sched exEnv"]
  obtain st where "dispatchLoop exEnv 0 (initialSession 5) = Some st"
    and "uninterrupted exEnv \<longrightarrow> orderedBuffers st = map (slotOf exEnv) [0..<5]"
    unfolding e n by blast
  then show ?thesis
    using lim u slots by auto
qed

section \<open>Properties of the assembly\<close>

lemma finishSession_not_assembled:
  assumes none: "j < length (orderedBuffers st)" "orderedBuffers st ! j = None"
    and len: "length (orderedBuffers st) = n"
  shows "finishSession context music sv mv n st =
           \<lparr>assembled = None, currentAudioBuffer = None,
            message = Some (if stopGenerationRef st then Interrupted else Incomplete)\<rparr>"
proof -
  let ?valid = "map the (filter (\<lambda>b. b \<noteq> None) (orderedBuffers st))"
  have "orderedBuffers st ! j \<in> set (orderedBuffers st)"
    using none(1) by (rule nth_mem)
  then have "length (filter (\<lambda>b. b \<noteq> None) (orderedBuffers st)) < length (orderedBuffers st)"
    using none(2) by (intro length_filter_less [of None]) simp_all
  then have "length ?valid \<noteq> n"
    using len by simp
  then show ?thesis
    by (simp add: finishSession_def Let_def)
qed

lemma finishSession_assembled:
  assumes a: "assembled (finishSession context music sv mv n st) = Some bufs"
    and len: "length (orderedBuffers st) = n"
  shows "\<not> stopGenerationRef st \<and> length bufs = n \<and> orderedBuffers st = map Some bufs"
proof -
  let ?valid = "map the (filter (\<lambda>b. b \<noteq> None) (orderedBuffers st))"
  have first: "\<not> stopGenerationRef st \<and> 0 < length ?valid \<and> length ?valid = n"
    using a by (auto simp: finishSession_def Let_def split: if_splits)
  then have bufs: "bufs = ?valid"
    using a by (auto simp: finishSession_def Let_def split: sum.splits option.splits)
  have all: "\<forall>b\<in>set (orderedBuffers st). b \<noteq> None"
  proof (rule ccontr)
    assume "\<not> (\<forall>b\<in>set (orderedBuffers st). b \<noteq> None)"
    then have "None \<in> set (orderedBuffers st)"
      by auto
    then have "length (filter (\<lambda>b. b \<noteq> None) (orderedBuffers st)) < length (orderedBuffers st)"
      by (intro length_filter_less [of None]) simp_all
    then show False
      using first len by simp
  qed
  then have "filter (\<lambda>b. b \<noteq> None) (orderedBuffers st) = orderedBuffers st"
    by (simp only: filter_True)
  then have "map Some bufs = orderedBuffers st"
    using all by (simp add: bufs map_idI)
  then show ?thesis
    using first bufs by simp
qed

lemma finishSession_buffer_needs_assembly:
  "currentAudioBuffer (finishSession context music sv mv n st) \<noteq> None \<Longrightarrow>
   assembled (finishSession context music sv mv n st) \<noteq> None"
  by (auto simp: finishSession_def Let_def split: if_splits sum.splits option.splits)


text \<open>
  C2. A generation always ends. If the speech call of some chunk throws in the end (its
  slot stays empty), \<open>combineAudioBuffers\<close> is not called, no buffer is stored and an error
  is shown. \<open>combineAudioBuffers\<close> is called only with one buffer per chunk, the buffer of
  chunk \<open>j\<close> at position \<open>j\<close>, every call having returned; and a buffer is stored only after
  that call.
\<close>

theorem failed_chunk_blocks_assembly:
  "\<exists>out. handleGenerateAudio context music speechVolume musicVolume key service schedule
            staleError text = Some out
     \<and> (let chunks = segmentText MAX_CHARS_PER_AUDIO_CHUNK text;
            call = (\<lambda>j. generateSpeech key (service j (chunks ! j))
                            \<lparr>maxRetries = 3, initialDelayMs = Num 1000\<rparr>)
        in ((\<exists>j<length chunks. \<exists>e. result (call j) = Inl e) \<longrightarrow>
              assembled out = None \<and> currentAudioBuffer out = None \<and> message out \<noteq> None)
         \<and> (\<forall>bufs. assembled out = Some bufs \<longrightarrow>
              length bufs = length chunks \<and> (\<forall>j<length chunks. result (call j) = Inr (bufs ! j)))
         \<and> (currentAudioBuffer out \<noteq> None \<longrightarrow> assembled out \<noteq> None))"
proof -
  let ?chunks = "segmentText MAX_CHARS_PER_AUDIO_CHUNK text"
  let ?n = "length ?chunks"
  let ?env = "\<lparr>textChunks = ?chunks, concurrency = CONCURRENCY_LIMIT, envApiKey = key,
               remote = service, sched = schedule, errorRendered = staleError\<rparr>"
  let ?call = "\<lambda>j. generateSpeech key (service j (?chunks ! j))
                      \<lparr>maxRetries = 3, initialDelayMs = Num 1000\<rparr>"
  let ?good = "\<lambda>out. ((\<exists>j<?n. \<exists>e. result (?call j) = Inl e) \<longrightarrow>
              assembled out = None \<and> currentAudioBuffer out = None \<and> message out \<noteq> None)
         \<and> (\<forall>bufs. assembled out = Some bufs \<longrightarrow>
              length bufs = ?n \<and> (\<forall>j<?n. result (?call j) = Inr (bufs ! j)))
         \<and> (currentAudioBuffer out \<noteq> None \<longrightarrow> assembled out \<noteq> None)"
  have rej: "?good (rejected m)" for m
    by (simp add: rejected_def)
  have call: "speechFor ?env j = ?call j" for j
    by (simp add: speechFor_def)
  have lim: "0 < concurrency ?env"
    by (simp add: CONCURRENCY_LIMIT_def)
  from dispatchLoop_invariant [of ?env "slotsRight ?env", OF lim slotsRight_runBatch
         slotsRight_initial, of 0]
  obtain st where st: "dispatchLoop ?env 0 (initialSession ?n) = Some st"
    and right: "slotsRight ?env st"
    by auto
  have len: "length (orderedBuffers st) = ?n"
    and filled: "\<And>j b. j < ?n \<Longrightarrow> orderedBuffers st ! j = Some b \<Longrightarrow> result (?call j) = Inr b"
    using right by (simp_all add: slotsRight_def call)
  let ?out = "finishSession context music speechVolume musicVolume ?n st"
  have g1: "assembled ?out = None \<and> currentAudioBuffer ?out = None \<and> message ?out \<noteq> None"
    if f: "\<exists>j<?n. \<exists>e. result (?call j) = Inl e"
  proof -
    from f obtain j e where j: "j < ?n" "result (?call j) = Inl e"
      by blast
    have "orderedBuffers st ! j = None"
    proof (cases "orderedBuffers st ! j")
      case None
      then show ?thesis .
    next
      case (Some b)
      then show ?thesis
        using filled [OF j(1) Some] j(2) by simp
    qed
    then have "?out = \<lparr>assembled = None, currentAudioBuffer = None,
            message = Some (if stopGenerationRef st then Interrupted else Incomplete)\<rparr>"
      using j(1) len by (intro finishSession_not_assembled) simp_all
    then show ?thesis
      by simp
  qed
  have g2: "length bufs = ?n \<and> (\<forall>j<?n. result (?call j) = Inr (bufs ! j))"
    if a: "assembled ?out = Some bufs" for bufs
  proof -
    have b: "length bufs = ?n" "orderedBuffers st = map Some bufs"
      using finishSession_assembled [OF a len] by simp_all
    have "result (?call j) = Inr (bufs ! j)" if "j < ?n" for j
      using filled [OF that, of "bufs ! j"] b that by simp
    then show ?thesis
      using b(1) by simp
  qed
  have good: "?good ?out"
    using g1 g2 finishSession_buffer_needs_assembly [of "context" music speechVolume musicVolume ?n st]
    by blast
  let ?run = "handleGenerateAudio context music speechVolume musicVolume key service
            schedule staleError text"
  consider (empty) "trim text = []"
    | (long) "trim text \<noteq> []" "MAX_TEXT_LENGTH < length text"
    | (nothing) "trim text \<noteq> []" "\<not> MAX_TEXT_LENGTH < length text" "?chunks = []"
    | (run) "trim text \<noteq> []" "\<not> MAX_TEXT_LENGTH < length text" "?chunks \<noteq> []"
    by blast
  then have "\<exists>out. ?run = Some out \<and> ?good out"
  proof cases
    case empty
    then have "?run = Some (rejected EmptyText)"
      by (simp add: handleGenerateAudio_def)
    then show ?thesis
      using rej [of EmptyText] by simp
  next
    case long
    then have "?run = Some (rejected TextTooLong)"
      by (simp add: handleGenerateAudio_def)
    then show ?thesis
      using rej [of TextTooLong] by simp
  next
    case nothing
    then have "?run = Some (rejected NoValidText)"
      by (simp add: handleGenerateAudio_def Let_def)
    then show ?thesis
      using rej [of NoValidText] by simp
  next
    case run
    then have "?run = Some ?out"
      by (simp add: handleGenerateAudio_def Let_def st)
    then show ?thesis
      using good by simp
  qed
  then show ?thesis
    by (simp only: Let_def)
qed

lemma exText_two_chunks:
  "segmentText MAX_CHARS_PER_AUDIO_CHUNK exText =
     [[65, 110, 32, 111, 120, 46, 32, 67, 100, 101, 102, 103, 104, 105, 106], [79, 107]]"
  by (simp add: segmentText_def exText_paragraphs exText_sentences exText_trims
        MAX_CHARS_PER_AUDIO_CHUNK_def)

theorem failed_chunk_blocks_assembly_witness:
  "\<exists>out. handleGenerateAudio \<lparr>ctxSampleRate = 24000\<rparr> None (Num 1) (Num 1) (Some ''key'') refusesSecond
            (reversedBatches 4 2) False exText = Some out
     \<and> assembled out = None \<and> currentAudioBuffer out = None \<and> message out \<noteq> None"
proof -
  let ?chunks = "segmentText MAX_CHARS_PER_AUDIO_CHUNK exText"
  let ?call = "\<lambda>j. generateSpeech (Some ''key'') (refusesSecond j (?chunks ! j))
                      \<lparr>maxRetries = 3, initialDelayMs = Num 1000\<rparr>"
  have "result (?call 1) = Inl AuthenticationError"
    by (simp add: generateSpeech_def callGeminiApiWithRetries_def refusesSecond_def
          retryLoop.simps forbidden403_def parseGeminiError_def
        isQuotaError_def isModelOverloadedError_def isEmptyResponseError_def notRetried_def)
  moreover have "1 < length ?chunks"
    by (simp add: exText_two_chunks)
  ultimately have f: "\<exists>j<length ?chunks. \<exists>e. result (?call j) = Inl e"
    by blast
  from failed_chunk_blocks_assembly [of "\<lparr>ctxSampleRate = 24000\<rparr>" None "Num 1" "Num 1" "Some ''key''"
        refusesSecond "reversedBatches 4 2" False exText]
  obtain out where "handleGenerateAudio \<lparr>ctxSampleRate = 24000\<rparr> None (Num 1) (Num 1) (Some ''key'')
            refusesSecond (reversedBatches 4 2) False exText = Some out"
    and "(\<exists>j<length ?chunks. \<exists>e. result (?call j) = Inl e) \<longrightarrow>
              assembled out = None \<and> currentAudioBuffer out = None \<and> message out \<noteq> None"
    unfolding Let_def by blast
  then show ?thesis
    using f by blast
qed

section \<open>Cancellation\<close>






end
